theory Spec2Isabelle
  imports Complex_Main "HOL-Library.AList"
begin

section \<open>Tile positions\<close>

text \<open>
  \<^verbatim>\<open>Pos = namedtuple('Pos', 'n x y')\<close> (toast.py line 41, pyramid.py line 31).
  The fields are Python integers, so they are \<open>int\<close> here; nothing in the
  constructor keeps them non-negative.
\<close>

datatype Pos = Pos (pos_n: int) (pos_x: int) (pos_y: int)

text \<open>The exceptions the modelled code can raise.\<close>

datatype error = ValueError | AssertionError | KeyError | OtherError

text \<open>
  \<^verbatim>\<open>depth2tiles\<close> of toast.py (line 45) and of pyramid.py (line 48):
  \<^verbatim>\<open>return (4 ** (depth + 1) - 1) // 3\<close>. For \<open>depth < -1\<close> Python's \<open>**\<close>
  leaves the integers; the theorems below are about \<open>depth \<ge> 0\<close>.
\<close>

definition depth2tiles :: "int \<Rightarrow> int" where
  "depth2tiles depth = (4 ^ nat (depth + 1) - 1) div 3"

definition pyramid_depth2tiles :: "int \<Rightarrow> int" where
  "pyramid_depth2tiles depth = (4 ^ nat (depth + 1) - 1) div 3"

text \<open>
  \<^verbatim>\<open>_parent\<close> of toast.py (line 187). There is no check of the depth: the parent of
  a position of depth 0 is a position of depth -1. Python's \<open>//\<close> and \<open>%\<close> on
  integers round towards minus infinity, as \<open>div\<close> and \<open>mod\<close> on \<open>int\<close> do.
\<close>

definition parent :: "Pos \<Rightarrow> Pos \<times> int \<times> int" where
  "parent pos =
     (Pos (pos_n pos - 1) (pos_x pos div 2) (pos_y pos div 2),
      pos_x pos mod 2, pos_y pos mod 2)"

text \<open>\<^verbatim>\<open>pos_parent\<close> of pyramid.py (line 77): the same, behind a check of the depth.\<close>

definition pos_parent :: "Pos \<Rightarrow> error + Pos \<times> int \<times> int" where
  "pos_parent pos =
     (if pos_n pos < 1 then Inl ValueError
      else Inr (Pos (pos_n pos - 1) (pos_x pos div 2) (pos_y pos div 2),
                pos_x pos mod 2, pos_y pos mod 2))"

text \<open>\<^verbatim>\<open>pos_children\<close> of pyramid.py (line 106).\<close>

definition pos_children :: "Pos \<Rightarrow> Pos list" where
  "pos_children pos =
     (let n = pos_n pos + 1; x = pos_x pos * 2; y = pos_y pos * 2
      in [Pos n x y, Pos n (x + 1) y, Pos n x (y + 1), Pos n (x + 1) (y + 1)])"

section \<open>Tiles and the environment of the tiling engine\<close>

text \<open>
  \<^verbatim>\<open>Tile = namedtuple('Tile', 'pos corners increasing')\<close>. The corners are four points
  of the sphere (upper left, upper right, lower right, lower left); the type \<open>'c\<close> of
  a point is left open.
\<close>

datatype 'c Tile =
  Tile (tile_pos: Pos) (tile_corners: "'c \<times> 'c \<times> 'c \<times> 'c") (tile_increasing: bool)

text \<open>
  What toast.py imports from modules that are not among the sources, and from numpy and
  os: each is a field of the environment. \<open>'c\<close> is a point of the sphere, \<open>'g\<close> a
  coordinate grid, \<open>'img\<close> a numpy array holding an image.
  \<^item> \<open>mid\<close>, \<open>subsample\<close>: \<^verbatim>\<open>from ._libtoasty import subsample, mid\<close>;
  \<^item> \<open>read_png\<close>: \<^verbatim>\<open>from .io import read_png\<close> (\<open>Inl\<close> when it raises);
  \<^item> \<open>isfile\<close>: \<^verbatim>\<open>os.path.isfile\<close>;
  \<^item> \<open>radians\<close>: \<^verbatim>\<open>np.radians\<close> on a pair of degrees;
  \<^item> \<open>np_shape a\<close>: \<^verbatim>\<open>a.shape\<close>; \<open>np_zeros s\<close>: \<^verbatim>\<open>np.zeros(s, dtype=np.uint8)\<close>;
    \<open>np_hstack a b\<close>: \<^verbatim>\<open>np.hstack((a, b))\<close>; \<open>np_vstack a b\<close>: \<^verbatim>\<open>np.vstack((a, b))\<close>;
  \<^item> \<open>np_stride2 i j a\<close>: \<^verbatim>\<open>a[i::2, j::2]\<close>; \<open>np_div4 a\<close>: \<^verbatim>\<open>a / 4.\<close>;
    \<open>np_add a b\<close>: \<^verbatim>\<open>a + b\<close>; \<open>np_astype_like m a\<close>: \<^verbatim>\<open>a.astype(m.dtype)\<close>.
  The numpy operations that can raise (on arrays whose shapes do not fit) return a sum.
\<close>

record ('c, 'g, 'img) env =
  mid :: "'c \<Rightarrow> 'c \<Rightarrow> 'c"
  subsample :: "'c \<Rightarrow> 'c \<Rightarrow> 'c \<Rightarrow> 'c \<Rightarrow> nat \<Rightarrow> bool \<Rightarrow> 'g \<times> 'g"
  read_png :: "string \<Rightarrow> error + 'img"
  isfile :: "string \<Rightarrow> bool"
  radians :: "int \<times> int \<Rightarrow> 'c"
  np_shape :: "'img \<Rightarrow> nat list"
  np_zeros :: "nat list \<Rightarrow> 'img"
  np_hstack :: "'img \<Rightarrow> 'img \<Rightarrow> error + 'img"
  np_vstack :: "'img \<Rightarrow> 'img \<Rightarrow> error + 'img"
  np_stride2 :: "nat \<Rightarrow> nat \<Rightarrow> 'img \<Rightarrow> error + 'img"
  np_div4 :: "'img \<Rightarrow> 'img"
  np_add :: "'img \<Rightarrow> 'img \<Rightarrow> error + 'img"
  np_astype_like :: "'img \<Rightarrow> 'img \<Rightarrow> 'img"

text \<open>\<^verbatim>\<open>_div4\<close> of toast.py (line 163): the four child tiles of a tile.\<close>

definition div4 :: "('c, 'g, 'img) env \<Rightarrow> 'c Tile \<Rightarrow> 'c Tile list" where
  "div4 E tile =
     (let n = pos_n (tile_pos tile); x = pos_x (tile_pos tile); y = pos_y (tile_pos tile);
          (ul, ur, lr, ll) = tile_corners tile;
          increasing = tile_increasing tile;
          to = mid E ul ur;
          ri = mid E ur lr;
          bo = mid E lr ll;
          le = mid E ll ul;
          ce = (if increasing then mid E ll ur else mid E ul lr);
          n = n + 1;
          x = x * 2;
          y = y * 2
      in [Tile (Pos n x y) (ul, to, ce, le) increasing,
          Tile (Pos n (x + 1) y) (to, ur, ri, ce) increasing,
          Tile (Pos n x (y + 1)) (le, ce, bo, ll) increasing,
          Tile (Pos n (x + 1) (y + 1)) (ce, ri, lr, bo) increasing])"

section \<open>Pruned traversal\<close>

text \<open>
  \<^verbatim>\<open>is_subtile\<close> of toast.py (line 82): repeated ascent with \<open>_parent\<close> until the
  depths agree.
\<close>

function is_subtile :: "Pos \<Rightarrow> Pos \<Rightarrow> error + bool" where
  "is_subtile deeper_pos shallower_pos =
     (if pos_n deeper_pos < pos_n shallower_pos then Inl ValueError
      else if pos_n deeper_pos = pos_n shallower_pos then
        Inr (pos_x deeper_pos = pos_x shallower_pos \<and> pos_y deeper_pos = pos_y shallower_pos)
      else is_subtile (fst (parent deeper_pos)) shallower_pos)"
  by pat_completeness auto
termination
  by (relation "measure (\<lambda>(d, s). nat (pos_n d - pos_n s))") (auto simp: parent_def)

text \<open>
  \<^verbatim>\<open>nxy_tile_filter\<close> of toast.py (line 106). A tile filter is a Python callable; it
  returns a truth value or raises, so its model returns a sum.
\<close>

definition nxy_tile_filter :: "int \<Rightarrow> int \<Rightarrow> int \<Rightarrow> 'c Tile \<Rightarrow> error + bool" where
  "nxy_tile_filter layer tx ty =
     (let regionLoc = Pos layer tx ty
      in (\<lambda>tile.
            let tileLoc = tile_pos tile
            in if pos_n tileLoc > pos_n regionLoc then Inr True
               else is_subtile regionLoc tileLoc))"

text \<open>
  A generator is modelled by what a consumer that exhausts it sees: the list of the items
  it yields, in order, and how it ends (\<open>None\<close>: it is exhausted; \<open>Some e\<close>: it raises
  \<open>e\<close> after the items of the list). \<open>yield_from\<close> runs generators one after the other,
  as the nested \<^verbatim>\<open>for item in ...: yield item\<close> loops do: the first that raises ends
  the whole.
\<close>

type_synonym 'a gen = "'a list \<times> error option"

fun yield_from :: "'a gen list \<Rightarrow> 'a gen" where
  "yield_from [] = ([], None)"
| "yield_from ((items, Some e) # gs) = (items, Some e)"
| "yield_from ((items, None) # gs) = (case yield_from gs of (rest, r) \<Rightarrow> (items @ rest, r))"

text \<open>\<^verbatim>\<open>_postfix_corner\<close> of toast.py (line 130).\<close>

function postfix_corner ::
  "('c, 'g, 'img) env \<Rightarrow> 'c Tile \<Rightarrow> int \<Rightarrow> bool \<Rightarrow> ('c Tile \<Rightarrow> error + bool) \<Rightarrow> 'c Tile gen"
where
  "postfix_corner E tile depth bottom_only tile_filter =
     (if pos_n (tile_pos tile) > depth then ([], None)
      else
        (case tile_filter tile of
           Inl e \<Rightarrow> ([], Some e)
         | Inr accepted \<Rightarrow>
             if \<not> accepted then ([], None)
             else
               (case yield_from
                       (map (\<lambda>child. postfix_corner E child depth bottom_only tile_filter)
                          (div4 E tile)) of
                  (items, Some e) \<Rightarrow> (items, Some e)
                | (items, None) \<Rightarrow>
                    if pos_n (tile_pos tile) = depth \<or> \<not> bottom_only
                    then (items @ [tile], None)
                    else (items, None))))"
  by pat_completeness auto
termination
proof (relation "measure (\<lambda>(E, tile, depth, bottom_only, tile_filter).
                    nat (depth + 1 - pos_n (tile_pos tile)))", goal_cases)
  case 1
  show ?case by simp
next
  case (2 E tile depth bottom_only tile_filter accepted child)
  then have "pos_n (tile_pos child) = pos_n (tile_pos tile) + 1"
    by (cases tile; cases "tile_corners tile") (auto simp: div4_def Let_def)
  with 2 show ?case by simp
qed

text \<open>
  The table \<^verbatim>\<open>level1\<close> of toast.py (line 31), in degrees, and \<^verbatim>\<open>iter_corners\<close>
  (line 213). The filter argument is \<open>None\<close> (the default) or a callable.
\<close>

definition level1 :: "('c, 'g, 'img) env \<Rightarrow> ('c \<times> 'c \<times> 'c \<times> 'c) list" where
  "level1 E =
     map (\<lambda>(a, b, c, d). (radians E a, radians E b, radians E c, radians E d))
       [((0, - 90), (90, 0), (0, 90), (180, 0)),
        ((90, 0), (0, - 90), (0, 0), (0, 90)),
        ((0, 90), (0, 0), (0, - 90), (270, 0)),
        ((180, 0), (0, 90), (270, 0), (0, - 90))]"

definition todo :: "('c, 'g, 'img) env \<Rightarrow> 'c Tile list" where
  "todo E =
     [Tile (Pos 1 0 0) (level1 E ! 0) True,
      Tile (Pos 1 1 0) (level1 E ! 1) False,
      Tile (Pos 1 1 1) (level1 E ! 2) True,
      Tile (Pos 1 0 1) (level1 E ! 3) False]"

definition iter_corners ::
  "('c, 'g, 'img) env \<Rightarrow> int \<Rightarrow> bool \<Rightarrow> ('c Tile \<Rightarrow> error + bool) option \<Rightarrow> 'c Tile gen"
where
  "iter_corners E depth bottom_only tile_filter =
     (let tile_filter = (case tile_filter of None \<Rightarrow> (\<lambda>t. Inr True) | Some f \<Rightarrow> f)
      in yield_from (map (\<lambda>t. postfix_corner E t depth bottom_only tile_filter) (todo E)))"

section \<open>Sampling and merge pipeline\<close>

text \<open>
  The path of a tile, \<^verbatim>\<open>os.path.join('%i' % n, '%i' % y, '%i_%i.png' % (y, x))\<close>
  (toast.py lines 332 and 344), on a POSIX system. \<open>fmt_i\<close> is \<^verbatim>\<open>'%i' % v\<close>, which
  for an integer is also \<^verbatim>\<open>str(v)\<close>.
\<close>

function digits :: "nat \<Rightarrow> string" where
  "digits k =
     (if k < 10 then [''0123456789'' ! k]
      else digits (k div 10) @ [''0123456789'' ! (k mod 10)])"
  by pat_completeness auto
termination
  by (relation "measure id") auto

definition fmt_i :: "int \<Rightarrow> string" where
  "fmt_i v = (if v < 0 then CHR ''-'' # digits (nat (- v)) else digits (nat v))"

definition pth :: "int \<Rightarrow> int \<Rightarrow> int \<Rightarrow> string" where
  "pth n x y = fmt_i n @ ''/'' @ fmt_i y @ ''/'' @ fmt_i y @ ''_'' @ fmt_i x @ ''.png''"

text \<open>Sequencing of operations that can raise: the first error ends the computation.\<close>

fun and_then :: "error + 'a \<Rightarrow> ('a \<Rightarrow> error + 'b) \<Rightarrow> error + 'b" where
  "and_then (Inl e) f = Inl e"
| "and_then (Inr v) f = f v"

text \<open>\<^verbatim>\<open>_default_merge\<close> of toast.py (line 409).\<close>

definition default_merge :: "('c, 'g, 'img) env \<Rightarrow> 'img \<Rightarrow> error + 'img" where
  "default_merge E mosaic =
     and_then (np_stride2 E 0 0 mosaic) (\<lambda>a.
     and_then (np_stride2 E 1 0 mosaic) (\<lambda>b.
     and_then (np_add E (np_div4 E a) (np_div4 E b)) (\<lambda>ab.
     and_then (np_stride2 E 0 1 mosaic) (\<lambda>c.
     and_then (np_add E ab (np_div4 E c)) (\<lambda>abc.
     and_then (np_stride2 E 1 1 mosaic) (\<lambda>d.
     and_then (np_add E abc (np_div4 E d)) (\<lambda>s.
       Inr (np_astype_like E mosaic s))))))))"

text \<open>
  The dictionary \<^verbatim>\<open>parents = defaultdict(dict)\<close>: from the position of a parent to the
  dictionary of the images of its children, by quadrant. Both are association lists with
  distinct keys; \<^verbatim>\<open>d[k] = v\<close> is \<open>AList.update\<close>, \<^verbatim>\<open>d.pop(k)\<close> is \<open>AList.delete\<close>,
  and a missing key of \<^verbatim>\<open>parents\<close> reads as the empty dictionary. An image is
  \<open>None\<close> (no data) or \<open>Some\<close> array.
\<close>

type_synonym 'img corners = "((int \<times> int) \<times> 'img option) list"

type_synonym 'img parents = "(Pos \<times> 'img corners) list"

lemma length_delete_less: "k \<in> fst ` set al \<Longrightarrow> length (AList.delete k al) < length al"
proof (induction al)
  case Nil
  then show ?case by simp
next
  case (Cons e al)
  obtain a b where e: "e = (a, b)" by (cases e)
  have le: "length (AList.delete k al) \<le> length al" by (rule AList.length_delete_le)
  show ?case
  proof (cases "a = k")
    case True
    with le e show ?thesis by simp
  next
    case False
    with Cons e show ?thesis by auto
  qed
qed

lemma length_delete_update:
  assumes "4 \<le> length (AList.update k v (case map_of al p of None \<Rightarrow> [] | Some c \<Rightarrow> c))"
  shows "length (AList.delete p (AList.update p w al)) < length al"
proof -
  have "map_of al p \<noteq> None"
  proof
    assume "map_of al p = None"
    with assms show False by simp
  qed
  then have "p \<in> fst ` set al" by (simp add: map_of_eq_None_iff)
  then show ?thesis
    unfolding AList.delete_update_same by (rule length_delete_less)
qed

text \<open>
  \<^verbatim>\<open>_trickle_up\<close> of toast.py (line 336). The result is the generator (the pairs
  yielded and how it ends) and the dictionary \<^verbatim>\<open>parents\<close> as the call leaves it. A
  failed \<^verbatim>\<open>assert\<close> raises AssertionError; \<^verbatim>\<open>corners[(0, 0)]\<close> on a missing key raises
  KeyError; the bare \<^verbatim>\<open>except\<close> around the mosaic and the merge turns every exception
  there into the image \<^verbatim>\<open>None\<close>. Each recursive call has popped an entry of
  \<^verbatim>\<open>parents\<close>, which is why the recursion ends.
\<close>

function trickle_up ::
  "('c, 'g, 'img) env \<Rightarrow> 'img option \<Rightarrow> Pos \<Rightarrow> 'img parents \<Rightarrow>
   ('img \<Rightarrow> error + 'img) option \<Rightarrow> int \<Rightarrow> int \<Rightarrow> (string \<times> 'img option) gen \<times> 'img parents"
where
  "trickle_up E im node parents merge depth top_layer =
     (let n = pos_n node; x = pos_x node; y = pos_y node;
          pth = pth n x y;
          nparent = (\<Sum>(k, v)\<leftarrow>parents. int (length v))
      in if \<not> nparent \<le> 4 * max depth 1 then (([], Some AssertionError), parents)
         else
           let out = (if depth \<ge> n then [(pth, im)] else [])
           in if n = top_layer then ((out, None), parents)
              else if merge = None \<and> n > 1 then ((out, None), parents)
              else
                let (parent_pos, xc, yc) = parent node;
                    corners = AList.update (xc, yc) im
                                (case map_of parents parent_pos of None \<Rightarrow> [] | Some c \<Rightarrow> c);
                    parents = AList.update parent_pos corners parents
                in if length corners < 4 then ((out, None), parents)
                   else
                     let parents = AList.delete parent_pos parents
                     in (case (map_of corners (0, 0), map_of corners (1, 0),
                               map_of corners (0, 1), map_of corners (1, 1)) of
                           (Some ul, Some ur, Some bl, Some br) \<Rightarrow>
                             let im =
                               (if ul = None \<and> ur = None \<and> bl = None \<and> br = None then None
                                else
                                  (case List.map_filter id [ul, ur, bl, br] of
                                     [] \<Rightarrow> None
                                   | present # _ \<Rightarrow>
                                       let imgShape = np_shape E present
                                       in if imgShape = [] then None
                                          else
                                            let ul = (case ul of None \<Rightarrow> np_zeros E imgShape | Some a \<Rightarrow> a);
                                                ur = (case ur of None \<Rightarrow> np_zeros E imgShape | Some a \<Rightarrow> a);
                                                bl = (case bl of None \<Rightarrow> np_zeros E imgShape | Some a \<Rightarrow> a);
                                                br = (case br of None \<Rightarrow> np_zeros E imgShape | Some a \<Rightarrow> a)
                                            in (case and_then (np_hstack E ul ur) (\<lambda>upper.
                                                     and_then (np_hstack E bl br) (\<lambda>lower.
                                                     and_then (np_vstack E upper lower) (\<lambda>mosaic.
                                                       (case merge of None \<Rightarrow> default_merge E | Some f \<Rightarrow> f)
                                                         mosaic))) of
                                                  Inl e \<Rightarrow> None
                                                | Inr im \<Rightarrow> Some im)))
                             in (case trickle_up E im parent_pos parents merge depth top_layer of
                                   ((items, r), parents) \<Rightarrow> ((out @ items, r), parents))
                         | _ \<Rightarrow> ((out, Some KeyError), parents)))"
  by pat_completeness auto
termination
  apply (relation "measure (\<lambda>(E, im, node, parents, merge, depth, top_layer). length parents)")
   apply simp
  apply (simp only: in_measure prod.case not_less)
  apply (rule length_delete_update)
  apply assumption
  done

declare trickle_up.simps [simp del] digits.simps [simp del]

text \<open>
  The arguments of \<^verbatim>\<open>iter_tiles\<close> (toast.py line 250). \<^verbatim>\<open>data_sampler\<close> is a string
  (a directory of tiles) or a function of two coordinate grids that returns an image
  or \<^verbatim>\<open>None\<close>; \<^verbatim>\<open>merge\<close> is \<^verbatim>\<open>True\<close>, \<^verbatim>\<open>False\<close> or a callable.
\<close>

datatype ('g, 'img) data_sampler =
  SamplerDir string
| SamplerFunc "'g \<Rightarrow> 'g \<Rightarrow> 'img option"

datatype 'img merge_arg =
  MergeTrue
| MergeFalse
| MergeCallable "'img \<Rightarrow> error + 'img"

text \<open>
  Lines 306 to 318 of \<^verbatim>\<open>iter_tiles\<close>: the image of a tile. \<^verbatim>\<open>restart_dir\<close> is
  \<^verbatim>\<open>None\<close> or a string, and counts as true when it is a non-empty string.
\<close>

definition tile_image ::
  "('c, 'g, 'img) env \<Rightarrow> ('g, 'img) data_sampler \<Rightarrow> string option \<Rightarrow> 'c Tile \<Rightarrow> 'img option"
where
  "tile_image E data_sampler restart_dir tile =
     (let n = pos_n (tile_pos tile); x = pos_x (tile_pos tile); y = pos_y (tile_pos tile)
      in (case data_sampler of
            SamplerDir dir \<Rightarrow>
              (let img_dir = dir @ ''/'' @ fmt_i n @ ''/''
               in (case read_png E (img_dir @ fmt_i y @ ''/'' @ fmt_i y @ ''_'' @ fmt_i x @ ''.png'') of
                     Inl e \<Rightarrow> None
                   | Inr img \<Rightarrow> Some img))
          | SamplerFunc sampler \<Rightarrow>
              if (case restart_dir of
                    None \<Rightarrow> False
                  | Some dir \<Rightarrow>
                      dir \<noteq> [] \<and>
                      isfile E (dir @ ''/'' @ fmt_i n @ ''/'' @ fmt_i y @ ''/'' @ fmt_i y @ ''_''
                                @ fmt_i x @ ''.png''))
              then None
              else
                (case tile_corners tile of
                   (c0, c1, c2, c3) \<Rightarrow>
                     (case subsample E c0 c1 c2 c3 256 (tile_increasing tile) of
                        (l, b) \<Rightarrow> sampler l b))))"

text \<open>
  The loop of \<^verbatim>\<open>iter_tiles\<close> (lines 305 to 333) over the tiles of the traversal, with
  the dictionary \<^verbatim>\<open>parents\<close> as its state.
\<close>

fun iter_tiles_loop ::
  "('c, 'g, 'img) env \<Rightarrow> ('g, 'img) data_sampler \<Rightarrow> int \<Rightarrow> ('img \<Rightarrow> error + 'img) option \<Rightarrow>
   bool \<Rightarrow> string option \<Rightarrow> int \<Rightarrow> 'c Tile list \<Rightarrow> 'img parents \<Rightarrow>
   (string \<times> 'img option) gen \<times> 'img parents"
where
  "iter_tiles_loop E data_sampler depth merge base_level_only restart_dir top_layer [] parents =
     (([], None), parents)"
| "iter_tiles_loop E data_sampler depth merge base_level_only restart_dir top_layer
     (tile # tiles) parents =
     (let n = pos_n (tile_pos tile); x = pos_x (tile_pos tile); y = pos_y (tile_pos tile);
          img = tile_image E data_sampler restart_dir tile
      in if img = None \<and> base_level_only then
           iter_tiles_loop E data_sampler depth merge base_level_only restart_dir top_layer
             tiles parents
         else if \<not> base_level_only then
           (case trickle_up E img (tile_pos tile) parents merge depth top_layer of
              ((items, r), parents) \<Rightarrow>
                (let out = filter (\<lambda>(pth, img). img \<noteq> None) items
                 in (case r of
                       Some e \<Rightarrow> ((out, Some e), parents)
                     | None \<Rightarrow>
                         (case iter_tiles_loop E data_sampler depth merge base_level_only
                                 restart_dir top_layer tiles parents of
                            ((rest, r), parents) \<Rightarrow> ((out @ rest, r), parents)))))
         else
           (case iter_tiles_loop E data_sampler depth merge base_level_only restart_dir
                   top_layer tiles parents of
              ((rest, r), parents) \<Rightarrow> (((pth n x y, img) # rest, r), parents)))"

text \<open>
  \<^verbatim>\<open>iter_tiles\<close>. The traversal is consumed lazily: the tiles it yields before it raises
  are processed first.
\<close>

definition iter_tiles ::
  "('c, 'g, 'img) env \<Rightarrow> ('g, 'img) data_sampler \<Rightarrow> int \<Rightarrow> 'img merge_arg \<Rightarrow> bool \<Rightarrow>
   ('c Tile \<Rightarrow> error + bool) option \<Rightarrow> string option \<Rightarrow> int \<Rightarrow> (string \<times> 'img option) gen"
where
  "iter_tiles E data_sampler depth merge base_level_only tile_filter restart_dir top_layer =
     (let tile_filter = (case tile_filter of None \<Rightarrow> (\<lambda>t. Inr True) | Some f \<Rightarrow> f);
          merge = (case merge of
                     MergeTrue \<Rightarrow> Some (default_merge E)
                   | MergeFalse \<Rightarrow> None
                   | MergeCallable f \<Rightarrow> Some f)
      in (case iter_corners E (max depth 1) (merge \<noteq> None) (Some tile_filter) of
            (tiles, r) \<Rightarrow>
              (case iter_tiles_loop E data_sampler depth merge base_level_only restart_dir
                      top_layer tiles [] of
                 ((items, Some e), parents) \<Rightarrow> (items, Some e)
               | ((items, None), parents) \<Rightarrow> (items, r))))"

section \<open>A concrete environment\<close>

text \<open>
  An environment on which the model can be run: points of the plane with rational
  coordinates (the midpoint is the planar one), images as lists of rows of rational
  pixels, no files. It is used to evaluate the definitions on examples only.
\<close>

fun evens :: "'a list \<Rightarrow> 'a list" where
  "evens [] = []"
| "evens [a] = [a]"
| "evens (a # b # rest) = a # evens rest"

definition plane_env :: "(rat \<times> rat, rat list, rat list list) env" where
  "plane_env =
     \<lparr> mid = (\<lambda>(a, b) (c, d). ((a + c) / 2, (b + d) / 2)),
       subsample = (\<lambda>c0 c1 c2 c3 k inc. (map fst [c0, c1, c2, c3], map snd [c0, c1, c2, c3])),
       read_png = (\<lambda>path. Inl OtherError),
       isfile = (\<lambda>path. False),
       radians = (\<lambda>(a, b). (of_int a, of_int b)),
       np_shape = (\<lambda>a. [length a, (case a of [] \<Rightarrow> 0 | row # _ \<Rightarrow> length row)]),
       np_zeros = (\<lambda>s. (case s of [r, c] \<Rightarrow> replicate r (replicate c 0) | _ \<Rightarrow> [])),
       np_hstack = (\<lambda>a b. if length a = length b then Inr (map2 (@) a b) else Inl ValueError),
       np_vstack = (\<lambda>a b. if (case (a, b) of (r # _, s # _) \<Rightarrow> length r = length s | _ \<Rightarrow> True)
                            then Inr (a @ b) else Inl ValueError),
       np_stride2 = (\<lambda>i j a. Inr (map (\<lambda>row. evens (drop j row)) (evens (drop i a)))),
       np_div4 = map (map (\<lambda>v. v / 4)),
       np_add = (\<lambda>a b. if map length a = map length b then Inr (map2 (map2 (+)) a b)
                        else Inl ValueError),
       np_astype_like = (\<lambda>m a. a) \<rparr>"

text \<open>
  The descendant relation in closed form, for the proofs: \<open>under s d\<close> says that
  \<open>d\<close> is at least as deep as \<open>s\<close> and that halving its coordinates down to the
  depth of \<open>s\<close> gives the coordinates of \<open>s\<close>.
\<close>

definition under :: "Pos \<Rightarrow> Pos \<Rightarrow> bool" where
  "under s d =
     (pos_n s \<le> pos_n d
      \<and> pos_x d div 2 ^ nat (pos_n d - pos_n s) = pos_x s
      \<and> pos_y d div 2 ^ nat (pos_n d - pos_n s) = pos_y s)"

declare postfix_corner.simps [simp del] is_subtile.simps [simp del]

section \<open>Position algebra\<close>

lemma four_pow_sum: "3 * (\<Sum>i\<le>k. (4::int) ^ i) = 4 ^ (k + 1) - 1"
  by (induction k) simp_all

lemma depth_formula: "(4 ^ (k + 1) - 1) div 3 = (\<Sum>i\<le>k. (4::int) ^ i)"
proof -
  have "(4 ^ (k + 1) - 1) = 3 * (\<Sum>i\<le>k. (4::int) ^ i)"
    by (simp only: four_pow_sum)
  then show ?thesis
    by (simp only: nonzero_mult_div_cancel_left [of 3] numeral_neq_zero
        not_False_eq_True)
qed

lemma map_tile_pos_div4: "map tile_pos (div4 E (Tile p cs inc)) = pos_children p"
  by (cases cs) (simp add: div4_def pos_children_def Let_def)

lemma twice_div_mod:
  "(a * 2) div 2 = (a::int)" "(a * 2) mod 2 = (0::int)"
  "(a * 2 + 1) div 2 = (a::int)" "(a * 2 + 1) mod 2 = (1::int)"
  by simp_all

text \<open>
  C8. For a depth \<open>d \<ge> 0\<close> the tile count is the sum of the powers \<open>4 ^ i\<close> for
  \<open>i\<close> from 0 to \<open>d\<close>, and three times the count is exactly \<open>4 ^ (d + 1) - 1\<close> (the
  division by 3 leaves no remainder); the counts for the depths 0, 1 and 2 are 1, 5 and
  21. Both copies of the function (toast.py and pyramid.py) agree.
\<close>

theorem depth2tiles_closed_form:
  assumes "0 \<le> d"
  shows "depth2tiles d = (\<Sum>i\<le>nat d. 4 ^ i)
       \<and> 3 * depth2tiles d = 4 ^ (nat d + 1) - 1
       \<and> pyramid_depth2tiles d = depth2tiles d
       \<and> depth2tiles 0 = 1 \<and> depth2tiles 1 = 5 \<and> depth2tiles 2 = 21"
proof -
  from assms have k: "nat (d + 1) = nat d + 1" by simp
  have a: "depth2tiles d = (\<Sum>i\<le>nat d. 4 ^ i)"
    unfolding depth2tiles_def k by (rule depth_formula)
  have b: "3 * depth2tiles d = 4 ^ (nat d + 1) - 1"
    unfolding a by (rule four_pow_sum)
  have c: "pyramid_depth2tiles d = depth2tiles d"
    by (simp add: depth2tiles_def pyramid_depth2tiles_def)
  have d: "depth2tiles 0 = 1 \<and> depth2tiles 1 = 5 \<and> depth2tiles 2 = 21"
    by (simp add: depth2tiles_def)
  from a b c d show ?thesis by blast
qed

theorem depth2tiles_closed_form_witness:
  "depth2tiles 3 = 85 \<and> (\<Sum>i\<le>nat 3. (4::int) ^ i) = 85 \<and> pyramid_depth2tiles 3 = 85"
  using depth2tiles_closed_form [of 3]
  by (simp add: depth2tiles_def pyramid_depth2tiles_def)

text \<open>
  C4. For a position \<open>p\<close> (of depth \<open>n \<ge> 0\<close>, as every position of the data model),
  the children of \<open>p\<close> come in the order top left, top right, bottom left, bottom
  right, and the parent operation maps them back to \<open>p\<close> with the quadrant codes
  (0,0), (1,0), (0,1), (1,1): for \<open>pos_children\<close> and \<open>pos_parent\<close>, and for the
  positions of the tiles of \<open>_div4\<close> with \<open>_parent\<close>. The latter holds at every depth.
\<close>

theorem children_parent_roundtrip:
  "(0 \<le> pos_n p \<longrightarrow>
      map pos_parent (pos_children p) =
        [Inr (p, 0, 0), Inr (p, 1, 0), Inr (p, 0, 1), Inr (p, 1, 1)])
   \<and> map (\<lambda>t. parent (tile_pos t)) (div4 E (Tile p cs inc)) =
        [(p, 0, 0), (p, 1, 0), (p, 0, 1), (p, 1, 1)]
   \<and> map tile_pos (div4 E (Tile p cs inc)) = pos_children p"
proof -
  have a: "map pos_parent (pos_children p) =
        [Inr (p, 0, 0), Inr (p, 1, 0), Inr (p, 0, 1), Inr (p, 1, 1)]" if "0 \<le> pos_n p"
    using that by (cases p) (simp add: pos_children_def pos_parent_def Let_def twice_div_mod)
  have b: "map parent (pos_children p) = [(p, 0, 0), (p, 1, 0), (p, 0, 1), (p, 1, 1)]"
    by (cases p) (simp add: pos_children_def parent_def Let_def twice_div_mod)
  have c: "map (\<lambda>t. parent (tile_pos t)) (div4 E (Tile p cs inc)) =
      map parent (map tile_pos (div4 E (Tile p cs inc)))"
    by (simp only: map_map comp_def)
  show ?thesis
    using a b c map_tile_pos_div4 [of E p cs inc] by simp
qed

theorem children_parent_roundtrip_witness:
  "map pos_parent (pos_children (Pos 2 1 3)) =
     [Inr (Pos 2 1 3, 0, 0), Inr (Pos 2 1 3, 1, 0), Inr (Pos 2 1 3, 0, 1), Inr (Pos 2 1 3, 1, 1)]
   \<and> pos_children (Pos 2 1 3) = [Pos 3 2 6, Pos 3 3 6, Pos 3 2 7, Pos 3 3 7]"
  using children_parent_roundtrip [of "Pos 2 1 3" "undefined :: (unit, unit, unit) env" undefined True]
  by (simp add: pos_children_def)

text \<open>
  C6. At the position \<open>(0, 0, 0)\<close> of depth 0, \<open>pos_parent\<close> of pyramid.py raises
  ValueError, but \<open>_parent\<close> of toast.py returns the position \<open>(-1, 0, 0)\<close> with the
  quadrant \<open>(0, 0)\<close>.
\<close>

theorem parent_of_depth_zero:
  "pos_parent (Pos 0 0 0) = Inl ValueError \<and> parent (Pos 0 0 0) = (Pos (- 1) 0 0, 0, 0)"
  by (simp add: pos_parent_def parent_def)

section \<open>Traversal lemmas\<close>

lemma div_pow_step: "0 < k \<Longrightarrow> (a::int) div 2 div 2 ^ (k - Suc 0) = a div 2 ^ k"
proof -
  assume "0 < k"
  then obtain j where k: "k = Suc j" by (cases k) auto
  have "a div (2 * 2 ^ j) = a div 2 div 2 ^ j"
    by (rule zdiv_zmult2_eq) simp
  then show ?thesis by (simp add: k)
qed

lemma is_subtile_under:
  "is_subtile d s = (if pos_n d < pos_n s then Inl ValueError else Inr (under s d))"
proof (induction d s rule: is_subtile.induct)
  case (1 d s)
  show ?case
  proof (cases "pos_n d \<le> pos_n s")
    case True
    then show ?thesis by (auto simp: under_def is_subtile.simps [of d s])
  next
    case False
    then have lt: "pos_n s < pos_n d" by simp
    have n: "nat (pos_n d - 1 - pos_n s) = nat (pos_n d - pos_n s) - 1"
      by simp
    have pos: "0 < nat (pos_n d - pos_n s)" using lt by simp
    have "is_subtile d s = is_subtile (fst (parent d)) s"
      using lt by (subst is_subtile.simps) simp
    also have "\<dots> = Inr (under s (fst (parent d)))"
      using 1 lt by (simp add: parent_def)
    also have "under s (fst (parent d)) = under s d"
      using lt by (simp add: under_def parent_def n div_pow_step [OF pos])
    finally show ?thesis using lt by simp
  qed
qed

lemma yield_from_all_ok:
  "list_all (\<lambda>g. snd g = None) gs \<Longrightarrow> yield_from gs = (concat (map fst gs), None)"
proof (induction gs)
  case Nil
  show ?case by simp
next
  case (Cons g gs)
  obtain xs r where g: "g = (xs, r)" by (cases g)
  with Cons show ?case by simp
qed

lemma div_pow_step': "0 < k \<Longrightarrow> (a::int) div 2 ^ (k - Suc 0) div 2 = a div 2 ^ k"
proof -
  assume "0 < k"
  then obtain j where k: "k = Suc j" by (cases k) auto
  have "a div (2 ^ j * 2) = a div 2 ^ j div 2"
    by (rule zdiv_zmult2_eq) simp
  then show ?thesis by (simp add: k mult.commute)
qed

lemma half_eq_iff: "((a::int) div 2 = b) = (a = b * 2 \<or> a = b * 2 + 1)"
  by presburger

lemma under_children:
  assumes "pos_n s < pos_n p"
  shows "under s p = (\<exists>c\<in>set (pos_children s). under c p)"
proof -
  have pos: "0 < nat (pos_n p - pos_n s)" using assms by simp
  have n: "nat (pos_n p - (pos_n s + 1)) = nat (pos_n p - pos_n s) - Suc 0"
    by simp
  show ?thesis
    using assms
    by (auto simp: under_def pos_children_def Let_def n
        div_pow_step' [OF pos, symmetric] half_eq_iff)
qed

lemma under_unique:
  "under s p \<Longrightarrow> under s' p \<Longrightarrow> pos_n s = pos_n s' \<Longrightarrow> s = s'"
  by (cases s; cases s') (simp add: under_def)

lemma under_refl: "under p p"
  by (simp add: under_def)

lemma under_same_depth: "pos_n s = pos_n p \<Longrightarrow> under s p = (s = p)"
  by (cases s; cases p) (auto simp: under_def)

lemma div4_pos: "map tile_pos (div4 E t) = pos_children (tile_pos t)"
  by (cases t) (simp add: map_tile_pos_div4)

lemma div4_length: "length (div4 E t) = 4"
  using arg_cong [OF div4_pos [of E t], of length] by (simp add: pos_children_def Let_def)

lemma child_depth: "c \<in> set (div4 E t) \<Longrightarrow> pos_n (tile_pos c) = pos_n (tile_pos t) + 1"
proof -
  assume "c \<in> set (div4 E t)"
  then have "tile_pos c \<in> set (map tile_pos (div4 E t))" by simp
  then show ?thesis
    unfolding div4_pos by (auto simp: pos_children_def Let_def)
qed

lemma pc_too_deep: "D < pos_n (tile_pos t) \<Longrightarrow> postfix_corner E t D b f = ([], None)"
  by (subst postfix_corner.simps) simp

lemma pc_reject:
  "f t = Inr False \<Longrightarrow> postfix_corner E t D b f = ([], None)"
  by (subst postfix_corner.simps) simp

lemma pc_leaf:
  assumes "pos_n (tile_pos t) = D" and "f t = Inr True"
  shows "postfix_corner E t D b f = ([t], None)"
proof -
  have "map (\<lambda>c. postfix_corner E c D b f) (div4 E t) = map (\<lambda>c. ([], None)) (div4 E t)"
    using assms by (intro map_cong refl pc_too_deep) (simp add: child_depth)
  then have "yield_from (map (\<lambda>c. postfix_corner E c D b f) (div4 E t)) = ([], None)"
    by (simp add: yield_from_all_ok list_all_iff)
  then show ?thesis
    using assms by (subst postfix_corner.simps) simp
qed

lemma pc_inner:
  assumes "pos_n (tile_pos t) < D" and "f t = Inr True"
  shows "postfix_corner E t D True f =
           yield_from (map (\<lambda>c. postfix_corner E c D True f) (div4 E t))"
  using assms
  by (subst postfix_corner.simps) (auto split: prod.splits option.splits)

lemma div4_cases:
  obtains c1 c2 c3 c4 where
    "div4 E t = [c1, c2, c3, c4]"
    "pos_children (tile_pos t) = [tile_pos c1, tile_pos c2, tile_pos c3, tile_pos c4]"
proof -
  obtain cs where cs: "div4 E t = cs" by simp
  have "length cs = 4" using div4_length [of E t] cs by simp
  then obtain c1 c2 c3 c4 where l: "cs = [c1, c2, c3, c4]"
    by (auto simp: length_Suc_conv numeral_eq_Suc)
  show thesis
    using that [of c1 c2 c3 c4] div4_pos [of E t] cs l by simp
qed

lemma children_distinct: "distinct (pos_children p)"
  by (simp add: pos_children_def Let_def)

lemma children_depth: "c \<in> set (pos_children p) \<Longrightarrow> pos_n c = pos_n p + 1"
  by (auto simp: pos_children_def Let_def)

lemma under_level_set: "{p. pos_n p = pos_n s \<and> under s p} = {s}"
proof -
  have "(pos_n p = pos_n s \<and> under s p) = (p = s)" for p
    by (cases s; cases p) (auto simp: under_def)
  then show ?thesis by simp
qed

lemma under_disjoint:
  assumes "pos_n s = pos_n s'" "s \<noteq> s'"
  shows "{p. pos_n p = D \<and> under s p} \<inter> {p. pos_n p = D \<and> under s' p} = {}"
  using assms under_unique by blast

lemma pc_bottom:
  "pos_n (tile_pos t) \<le> D \<Longrightarrow>
     snd (postfix_corner E t D True (\<lambda>t. Inr True)) = None
   \<and> length (fst (postfix_corner E t D True (\<lambda>t. Inr True))) = 4 ^ nat (D - pos_n (tile_pos t))
   \<and> distinct (map tile_pos (fst (postfix_corner E t D True (\<lambda>t. Inr True))))
   \<and> set (map tile_pos (fst (postfix_corner E t D True (\<lambda>t. Inr True))))
       = {p. pos_n p = D \<and> under (tile_pos t) p}"
proof (induction "nat (D - pos_n (tile_pos t))" arbitrary: t)
  case 0
  then have n: "pos_n (tile_pos t) = D" by simp
  have r: "postfix_corner E t D True (\<lambda>t. Inr True) = ([t], None)"
    using n by (rule pc_leaf) simp
  have s: "{p. pos_n p = D \<and> under (tile_pos t) p} = {tile_pos t}"
    unfolding n [symmetric] by (rule under_level_set)
  show ?case unfolding r s by (simp add: n)
next
  case (Suc k)
  then have lt: "pos_n (tile_pos t) < D" by simp
  obtain c1 c2 c3 c4 where
    cs: "div4 E t = [c1, c2, c3, c4]" and
    ps: "pos_children (tile_pos t) = [tile_pos c1, tile_pos c2, tile_pos c3, tile_pos c4]"
    by (rule div4_cases)
  let ?pc = "\<lambda>c. postfix_corner E c D True (\<lambda>t. Inr True)"
  have mem: "c \<in> set (div4 E t)" if "c \<in> {c1, c2, c3, c4}" for c
    using that cs by auto
  have dep: "pos_n (tile_pos c) = pos_n (tile_pos t) + 1" if "c \<in> {c1, c2, c3, c4}" for c
    using child_depth [OF mem [OF that]] .
  have ih: "snd (?pc c) = None
      \<and> length (fst (?pc c)) = 4 ^ k
      \<and> distinct (map tile_pos (fst (?pc c)))
      \<and> set (map tile_pos (fst (?pc c))) = {p. pos_n p = D \<and> under (tile_pos c) p}"
    if "c \<in> {c1, c2, c3, c4}" for c
  proof -
    have "k = nat (D - pos_n (tile_pos c))" using Suc.hyps(2) dep [OF that] by simp
    moreover have "pos_n (tile_pos c) \<le> D" using lt dep [OF that] by simp
    ultimately show ?thesis using Suc.hyps(1) [of c] by simp
  qed
  have i1: "snd (?pc c1) = None \<and> length (fst (?pc c1)) = 4 ^ k
      \<and> distinct (map tile_pos (fst (?pc c1)))
      \<and> set (map tile_pos (fst (?pc c1))) = {p. pos_n p = D \<and> under (tile_pos c1) p}"
    by (rule ih) simp
  have i2: "snd (?pc c2) = None \<and> length (fst (?pc c2)) = 4 ^ k
      \<and> distinct (map tile_pos (fst (?pc c2)))
      \<and> set (map tile_pos (fst (?pc c2))) = {p. pos_n p = D \<and> under (tile_pos c2) p}"
    by (rule ih) simp
  have i3: "snd (?pc c3) = None \<and> length (fst (?pc c3)) = 4 ^ k
      \<and> distinct (map tile_pos (fst (?pc c3)))
      \<and> set (map tile_pos (fst (?pc c3))) = {p. pos_n p = D \<and> under (tile_pos c3) p}"
    by (rule ih) simp
  have i4: "snd (?pc c4) = None \<and> length (fst (?pc c4)) = 4 ^ k
      \<and> distinct (map tile_pos (fst (?pc c4)))
      \<and> set (map tile_pos (fst (?pc c4))) = {p. pos_n p = D \<and> under (tile_pos c4) p}"
    by (rule ih) simp
  define y1 where "y1 = fst (?pc c1)"
  define y2 where "y2 = fst (?pc c2)"
  define y3 where "y3 = fst (?pc c3)"
  define y4 where "y4 = fst (?pc c4)"
  have y: "?pc c1 = (y1, None)" "?pc c2 = (y2, None)" "?pc c3 = (y3, None)" "?pc c4 = (y4, None)"
    using i1 i2 i3 i4 by (simp_all add: y1_def y2_def y3_def y4_def prod_eq_iff)
  have res: "?pc t = (y1 @ y2 @ y3 @ y4, None)"
    using lt by (subst pc_inner) (simp_all add: cs y)
  have k: "nat (D - pos_n (tile_pos t)) = Suc k"
    using Suc.hyps(2) by simp
  have len: "length (y1 @ y2 @ y3 @ y4) = 4 ^ nat (D - pos_n (tile_pos t))"
    unfolding k using i1 i2 i3 i4 by (simp add: y1_def y2_def y3_def y4_def)
  have sets: "set (map tile_pos y1) = {p. pos_n p = D \<and> under (tile_pos c1) p}"
      "set (map tile_pos y2) = {p. pos_n p = D \<and> under (tile_pos c2) p}"
      "set (map tile_pos y3) = {p. pos_n p = D \<and> under (tile_pos c3) p}"
      "set (map tile_pos y4) = {p. pos_n p = D \<and> under (tile_pos c4) p}"
    unfolding y1_def y2_def y3_def y4_def using i1 i2 i3 i4 by blast+
  have dis: "distinct (map tile_pos y1)" "distinct (map tile_pos y2)"
      "distinct (map tile_pos y3)" "distinct (map tile_pos y4)"
    unfolding y1_def y2_def y3_def y4_def using i1 i2 i3 i4 by blast+
  have neq: "distinct [tile_pos c1, tile_pos c2, tile_pos c3, tile_pos c4]"
    using children_distinct [of "tile_pos t"] ps by simp
  have deps: "pos_n (tile_pos c1) = pos_n (tile_pos c2)" "pos_n (tile_pos c1) = pos_n (tile_pos c3)"
    "pos_n (tile_pos c1) = pos_n (tile_pos c4)" "pos_n (tile_pos c2) = pos_n (tile_pos c3)"
    "pos_n (tile_pos c2) = pos_n (tile_pos c4)" "pos_n (tile_pos c3) = pos_n (tile_pos c4)"
    using dep [of c1] dep [of c2] dep [of c3] dep [of c4] by simp_all
  have disj: "set (map tile_pos y1) \<inter> set (map tile_pos y2) = {}"
    "set (map tile_pos y1) \<inter> set (map tile_pos y3) = {}"
    "set (map tile_pos y1) \<inter> set (map tile_pos y4) = {}"
    "set (map tile_pos y2) \<inter> set (map tile_pos y3) = {}"
    "set (map tile_pos y2) \<inter> set (map tile_pos y4) = {}"
    "set (map tile_pos y3) \<inter> set (map tile_pos y4) = {}"
    unfolding sets using neq deps by (simp_all add: under_disjoint)
  have dist: "distinct (map tile_pos (y1 @ y2 @ y3 @ y4))"
    using dis disj by (simp add: Int_Un_distrib Int_Un_distrib2)
  have "{p. pos_n p = D \<and> under (tile_pos t) p}
      = {p. pos_n p = D \<and> (\<exists>c\<in>set (pos_children (tile_pos t)). under c p)}"
    using lt under_children [of "tile_pos t"] by auto
  also have "\<dots> = set (map tile_pos (y1 @ y2 @ y3 @ y4))"
    unfolding ps map_append set_append sets by auto
  finally have st: "set (map tile_pos (y1 @ y2 @ y3 @ y4)) = {p. pos_n p = D \<and> under (tile_pos t) p}"
    by simp
  show ?case
    unfolding res fst_conv snd_conv using len dist st by simp
qed

lemma div_pow_add: "(v::int) div 2 ^ (i + j) = v div 2 ^ i div 2 ^ j"
  unfolding power_add by (rule zdiv_zmult2_eq) simp

lemma div_pow_chain:
  assumes "na \<le> nb" "nb \<le> (nc::int)"
  shows "(v::int) div 2 ^ nat (nc - na) = v div 2 ^ nat (nc - nb) div 2 ^ nat (nb - na)"
proof -
  have "nat (nc - na) = nat (nc - nb) + nat (nb - na)" using assms by simp
  then show ?thesis by (simp only: div_pow_add)
qed

lemma under_trans:
  assumes "under a b" "under b c"
  shows "under a c"
proof -
  have le: "pos_n a \<le> pos_n b" "pos_n b \<le> pos_n c"
    using assms unfolding under_def by blast+
  have ab: "pos_x b div 2 ^ nat (pos_n b - pos_n a) = pos_x a"
       "pos_y b div 2 ^ nat (pos_n b - pos_n a) = pos_y a"
    using assms(1) unfolding under_def by blast+
  have bc: "pos_x c div 2 ^ nat (pos_n c - pos_n b) = pos_x b"
       "pos_y c div 2 ^ nat (pos_n c - pos_n b) = pos_y b"
    using assms(2) unfolding under_def by blast+
  have "pos_x c div 2 ^ nat (pos_n c - pos_n a) = pos_x a"
    by (simp only: div_pow_chain [OF le] bc ab)
  moreover have "pos_y c div 2 ^ nat (pos_n c - pos_n a) = pos_y a"
    by (simp only: div_pow_chain [OF le] bc ab)
  moreover have "pos_n a \<le> pos_n c" using le by simp
  ultimately show ?thesis unfolding under_def by blast
qed

lemma under_between:
  assumes "under t u" "under r u" "pos_n t \<le> pos_n r"
  shows "under t r"
proof -
  have le: "pos_n r \<le> pos_n u"
    using assms(2) unfolding under_def by blast
  have tu: "pos_x u div 2 ^ nat (pos_n u - pos_n t) = pos_x t"
       "pos_y u div 2 ^ nat (pos_n u - pos_n t) = pos_y t"
    using assms(1) unfolding under_def by blast+
  have ru: "pos_x u div 2 ^ nat (pos_n u - pos_n r) = pos_x r"
       "pos_y u div 2 ^ nat (pos_n u - pos_n r) = pos_y r"
    using assms(2) unfolding under_def by blast+
  have "pos_x r div 2 ^ nat (pos_n r - pos_n t) = pos_x t"
    using tu(1) by (simp only: div_pow_chain [OF assms(3) le] ru)
  moreover have "pos_y r div 2 ^ nat (pos_n r - pos_n t) = pos_y t"
    using tu(2) by (simp only: div_pow_chain [OF assms(3) le] ru)
  ultimately show ?thesis using assms(3) unfolding under_def by blast
qed

lemma under_child: "c \<in> set (pos_children p) \<Longrightarrow> under p c"
  by (cases p) (auto simp: pos_children_def Let_def under_def)

lemma nxy_filter_eq:
  "nxy_tile_filter rn rx ry t =
     Inr (rn < pos_n (tile_pos t) \<or> under (tile_pos t) (Pos rn rx ry))"
  by (auto simp: nxy_tile_filter_def Let_def is_subtile_under)

lemma pc_bottom_members:
  assumes "pos_n (tile_pos t) \<le> D" "u \<in> set (fst (postfix_corner E t D True (\<lambda>t. Inr True)))"
  shows "pos_n (tile_pos u) = D \<and> under (tile_pos t) (tile_pos u)"
proof -
  have "tile_pos u \<in> set (map tile_pos (fst (postfix_corner E t D True (\<lambda>t. Inr True))))"
    using assms(2) by simp
  then show ?thesis
    using pc_bottom [OF assms(1), of E] by simp
qed

lemma pc_nxy:
  assumes "rn \<le> D"
  shows "pos_n (tile_pos t) \<le> D \<Longrightarrow>
         (rn < pos_n (tile_pos t) \<Longrightarrow> under (Pos rn rx ry) (tile_pos t)) \<Longrightarrow>
         postfix_corner E t D True (nxy_tile_filter rn rx ry) =
           (filter (\<lambda>u. under (Pos rn rx ry) (tile_pos u))
              (fst (postfix_corner E t D True (\<lambda>t. Inr True))), None)"
proof (induction "nat (D - pos_n (tile_pos t))" arbitrary: t)
  case 0
  then have n: "pos_n (tile_pos t) = D" by simp
  have r: "postfix_corner E t D True (\<lambda>t. Inr True) = ([t], None)"
    using n by (rule pc_leaf) simp
  show ?case
  proof (cases "rn < pos_n (tile_pos t) \<or> under (tile_pos t) (Pos rn rx ry)")
    case True
    have u: "under (Pos rn rx ry) (tile_pos t)"
    proof (cases "rn < pos_n (tile_pos t)")
      case True
      then show ?thesis by (rule "0.prems"(2))
    next
      case False
      with True assms n have "pos_n (tile_pos t) = pos_n (Pos rn rx ry)"
        and "under (tile_pos t) (Pos rn rx ry)" by simp_all
      then have "tile_pos t = Pos rn rx ry" by (simp add: under_same_depth)
      then show ?thesis by (simp add: under_refl)
    qed
    have "postfix_corner E t D True (nxy_tile_filter rn rx ry) = ([t], None)"
      using n True by (intro pc_leaf) (simp_all add: nxy_filter_eq)
    then show ?thesis unfolding r using u by simp
  next
    case False
    then have "postfix_corner E t D True (nxy_tile_filter rn rx ry) = ([], None)"
      by (intro pc_reject) (simp add: nxy_filter_eq)
    moreover have "\<not> under (Pos rn rx ry) (tile_pos t)"
    proof
      assume a: "under (Pos rn rx ry) (tile_pos t)"
      from False have "pos_n (tile_pos t) \<le> rn" by simp
      with a have "pos_n (tile_pos t) = pos_n (Pos rn rx ry)" by (simp add: under_def)
      with a have "Pos rn rx ry = tile_pos t" by (simp add: under_same_depth)
      with False show False by (simp add: under_refl)
    qed
    ultimately show ?thesis unfolding r by simp
  qed
next
  case (Suc k)
  then have lt: "pos_n (tile_pos t) < D" by simp
  let ?r = "Pos rn rx ry"
  let ?P = "\<lambda>u. under ?r (tile_pos u)"
  let ?pc = "\<lambda>c. postfix_corner E c D True (\<lambda>t. Inr True)"
  let ?pf = "\<lambda>c. postfix_corner E c D True (nxy_tile_filter rn rx ry)"
  show ?case
  proof (cases "rn < pos_n (tile_pos t) \<or> under (tile_pos t) ?r")
    case False
    then have l: "?pf t = ([], None)"
      by (intro pc_reject) (simp add: nxy_filter_eq)
    from False have le: "pos_n (tile_pos t) \<le> pos_n ?r" by simp
    have "\<not> ?P u" if "u \<in> set (fst (?pc t))" for u
    proof
      assume a: "?P u"
      have b: "under (tile_pos t) (tile_pos u)"
        using pc_bottom_members [OF Suc.prems(1) that] by simp
      have "under (tile_pos t) ?r" using b a le by (rule under_between)
      with False show False by simp
    qed
    then have "filter ?P (fst (?pc t)) = []" by (simp add: filter_empty_conv)
    with l show ?thesis by simp
  next
    case True
    have ut: "under ?r (tile_pos t)" if "rn < pos_n (tile_pos t) + 1"
    proof (cases "rn < pos_n (tile_pos t)")
      case True
      then show ?thesis by (rule Suc.prems(2))
    next
      case False
      with that True have "pos_n (tile_pos t) = pos_n ?r" and "under (tile_pos t) ?r"
        by simp_all
      then have "tile_pos t = ?r" by (simp add: under_same_depth)
      then show ?thesis by (simp add: under_refl)
    qed
    have ih: "?pf c = (filter ?P (fst (?pc c)), None)" if c: "c \<in> set (div4 E t)" for c
    proof (rule Suc.hyps(1))
      have d: "pos_n (tile_pos c) = pos_n (tile_pos t) + 1" using c by (rule child_depth)
      show "k = nat (D - pos_n (tile_pos c))" using Suc.hyps(2) d by simp
      show "pos_n (tile_pos c) \<le> D" using lt d by simp
      have "tile_pos c \<in> set (pos_children (tile_pos t))"
        using c div4_pos [of E t, symmetric] by simp
      then have uc: "under (tile_pos t) (tile_pos c)" by (rule under_child)
      show "under ?r (tile_pos c)" if "rn < pos_n (tile_pos c)"
      proof -
        from that d have "rn < pos_n (tile_pos t) + 1" by simp
        then have "under ?r (tile_pos t)" by (rule ut)
        then show ?thesis using uc by (rule under_trans)
      qed
    qed
    have ok: "snd (?pc c) = None" if c: "c \<in> set (div4 E t)" for c
    proof -
      have "pos_n (tile_pos c) \<le> D" using lt child_depth [OF c] by simp
      then show ?thesis using pc_bottom [of c D E] by simp
    qed
    have a: "?pc t = (concat (map (\<lambda>c. fst (?pc c)) (div4 E t)), None)"
      using lt by (subst pc_inner) (simp_all add: yield_from_all_ok list_all_iff ok comp_def)
    have "?pf t = yield_from (map ?pf (div4 E t))"
      using lt True by (intro pc_inner) (simp_all add: nxy_filter_eq)
    also have "map ?pf (div4 E t) = map (\<lambda>c. (filter ?P (fst (?pc c)), None)) (div4 E t)"
      by (intro map_cong refl ih)
    also have "yield_from \<dots> = (concat (map (\<lambda>c. filter ?P (fst (?pc c))) (div4 E t)), None)"
      by (simp add: yield_from_all_ok list_all_iff comp_def)
    also have "concat (map (\<lambda>c. filter ?P (fst (?pc c))) (div4 E t))
        = filter ?P (concat (map (\<lambda>c. fst (?pc c)) (div4 E t)))"
      by (simp add: filter_concat comp_def)
    finally show ?thesis unfolding a by simp
  qed
qed

lemma pcs_bottom:
  assumes "n \<le> D"
  shows "distinct (map tile_pos ts) \<Longrightarrow> list_all (\<lambda>t. pos_n (tile_pos t) = n) ts \<Longrightarrow>
     snd (yield_from (map (\<lambda>t. postfix_corner E t D True (\<lambda>t. Inr True)) ts)) = None
   \<and> length (fst (yield_from (map (\<lambda>t. postfix_corner E t D True (\<lambda>t. Inr True)) ts)))
       = length ts * 4 ^ nat (D - n)
   \<and> distinct (map tile_pos (fst (yield_from (map (\<lambda>t. postfix_corner E t D True (\<lambda>t. Inr True)) ts))))
   \<and> set (map tile_pos (fst (yield_from (map (\<lambda>t. postfix_corner E t D True (\<lambda>t. Inr True)) ts))))
       = {p. pos_n p = D \<and> (\<exists>t\<in>set ts. under (tile_pos t) p)}"
proof (induction ts)
  case Nil
  show ?case by simp
next
  case (Cons t ts)
  let ?pc = "\<lambda>t. postfix_corner E t D True (\<lambda>t. Inr True)"
  have nt: "pos_n (tile_pos t) = n" using Cons.prems(2) by simp
  then have le: "pos_n (tile_pos t) \<le> D" using assms by simp
  define y where "y = fst (?pc t)"
  define ys where "ys = fst (yield_from (map ?pc ts))"
  have h: "snd (?pc t) = None" "length y = 4 ^ nat (D - n)" "distinct (map tile_pos y)"
    "set (map tile_pos y) = {p. pos_n p = D \<and> under (tile_pos t) p}"
    using pc_bottom [OF le, of E] unfolding y_def nt by blast+
  have ih: "snd (yield_from (map ?pc ts)) = None" "length ys = length ts * 4 ^ nat (D - n)"
    "distinct (map tile_pos ys)"
    "set (map tile_pos ys) = {p. pos_n p = D \<and> (\<exists>t\<in>set ts. under (tile_pos t) p)}"
    using Cons.IH Cons.prems unfolding ys_def by simp_all
  have e1: "?pc t = (y, None)" using h(1) by (simp add: y_def prod_eq_iff)
  have e2: "yield_from (map ?pc ts) = (ys, None)" using ih(1) by (simp add: ys_def prod_eq_iff)
  have res: "yield_from (map ?pc (t # ts)) = (y @ ys, None)"
    by (simp add: e1 e2)
  have disj: "set (map tile_pos y) \<inter> set (map tile_pos ys) = {}"
  proof (rule ccontr)
    assume "set (map tile_pos y) \<inter> set (map tile_pos ys) \<noteq> {}"
    then obtain p where "p \<in> set (map tile_pos y)" "p \<in> set (map tile_pos ys)" by blast
    then obtain t' where t': "t' \<in> set ts" "under (tile_pos t') p" and u: "under (tile_pos t) p"
      unfolding h(4) ih(4) by blast
    have "pos_n (tile_pos t') = n" using Cons.prems(2) t'(1) by (simp add: list_all_iff)
    then have "tile_pos t = tile_pos t'" using u t'(2) nt by (intro under_unique) simp_all
    then show False using Cons.prems(1) t'(1) by auto
  qed
  have a: "length (y @ ys) = length (t # ts) * 4 ^ nat (D - n)"
    using h(2) ih(2) by simp
  have b: "distinct (map tile_pos (y @ ys))"
    using h(3) ih(3) disj by simp
  have c: "set (map tile_pos (y @ ys)) = {p. pos_n p = D \<and> (\<exists>t\<in>set (t # ts). under (tile_pos t) p)}"
    unfolding map_append set_append h(4) ih(4) by auto
  show ?case unfolding res fst_conv snd_conv using a b c by blast
qed

lemma todo_pos: "map tile_pos (todo E) = [Pos 1 0 0, Pos 1 1 0, Pos 1 1 1, Pos 1 0 1]"
  by (simp add: todo_def)

lemma under_root: "under (Pos 0 0 0) p =
  (0 \<le> pos_n p \<and> 0 \<le> pos_x p \<and> pos_x p < 2 ^ nat (pos_n p) \<and> 0 \<le> pos_y p \<and> pos_y p < 2 ^ nat (pos_n p))"
proof -
  have "((v::int) div 2 ^ k = 0) = (0 \<le> v \<and> v < 2 ^ k)" for v k
  proof -
    have "(0::int) < 2 ^ k" by simp
    then show ?thesis unfolding zdiv_eq_0_iff by linarith
  qed
  then show ?thesis by (auto simp: under_def)
qed

lemma iter_corners_unfold:
  "iter_corners E D b None = yield_from (map (\<lambda>t. postfix_corner E t D b (\<lambda>t. Inr True)) (todo E))"
  "iter_corners E D b (Some f) = yield_from (map (\<lambda>t. postfix_corner E t D b f) (todo E))"
  by (simp_all add: iter_corners_def)

lemma ic_bottom:
  assumes "1 \<le> D"
  shows "snd (iter_corners E D True None) = None
       \<and> length (fst (iter_corners E D True None)) = 4 ^ nat D
       \<and> distinct (map tile_pos (fst (iter_corners E D True None)))
       \<and> set (map tile_pos (fst (iter_corners E D True None)))
           = {p. pos_n p = D \<and> under (Pos 0 0 0) p}"
proof -
  have d: "distinct (map tile_pos (todo E))" unfolding todo_pos by simp
  have n: "list_all (\<lambda>t. pos_n (tile_pos t) = 1) (todo E)" by (simp add: todo_def)
  note r = pcs_bottom [OF assms d n]
  have k: "length (todo E) * 4 ^ nat (D - 1) = (4::nat) ^ nat D"
  proof -
    have "nat D = Suc (nat (D - 1))" using assms by simp
    then show ?thesis by (simp add: todo_def)
  qed
  have "(\<exists>t\<in>set (todo E). under (tile_pos t) p) = under (Pos 0 0 0) p" if "pos_n p = D" for p
  proof -
    have "(\<exists>t\<in>set (todo E). under (tile_pos t) p) = (\<exists>c\<in>set (map tile_pos (todo E)). under c p)"
      by simp
    also have "\<dots> = (\<exists>c\<in>set (pos_children (Pos 0 0 0)). under c p)"
      unfolding todo_pos by (auto simp: pos_children_def)
    also have "\<dots> = under (Pos 0 0 0) p"
      using that assms by (intro under_children [symmetric]) simp
    finally show ?thesis .
  qed
  then have s: "{p. pos_n p = D \<and> (\<exists>t\<in>set (todo E). under (tile_pos t) p)}
      = {p. pos_n p = D \<and> under (Pos 0 0 0) p}" by blast
  show ?thesis
    unfolding iter_corners_unfold using r unfolding k s by blast
qed

lemma ic_bottom_depth:
  assumes "1 \<le> D" "t \<in> set (fst (iter_corners E D True None))"
  shows "pos_n (tile_pos t) = D"
proof -
  have "tile_pos t \<in> set (map tile_pos (fst (iter_corners E D True None)))"
    using assms(2) by simp
  then show ?thesis using ic_bottom [OF assms(1), of E] by simp
qed

lemma grid_set:
  "{p. pos_n p = D \<and> under (Pos 0 0 0) p} =
   (if 0 \<le> D then {Pos D x y | x y. 0 \<le> x \<and> x < 2 ^ nat D \<and> 0 \<le> y \<and> y < 2 ^ nat D} else {})"
proof -
  have "(pos_n p = D \<and> under (Pos 0 0 0) p) =
      (0 \<le> D \<and> (\<exists>x y. p = Pos D x y \<and> 0 \<le> x \<and> x < 2 ^ nat D \<and> 0 \<le> y \<and> y < 2 ^ nat D))" for p
    by (cases p) (auto simp: under_root)
  then show ?thesis by auto
qed

text \<open>
  C3 (as amended). For every depth \<open>D \<ge> 1\<close> the traversal
  \<^verbatim>\<open>iter_corners(D, bottom_only=True)\<close> with the default filter ends normally and yields
  exactly \<open>4 ^ D\<close> tiles, each of depth \<open>D\<close>, no position twice, and the positions
  are all \<open>(D, x, y)\<close> with \<open>0 \<le> x, y < 2 ^ D\<close>.
\<close>

theorem iter_corners_bottom_only:
  assumes "1 \<le> D"
  shows "snd (iter_corners E D True None) = None
       \<and> length (fst (iter_corners E D True None)) = 4 ^ nat D
       \<and> (\<forall>t\<in>set (fst (iter_corners E D True None)). pos_n (tile_pos t) = D)
       \<and> distinct (map tile_pos (fst (iter_corners E D True None)))
       \<and> set (map tile_pos (fst (iter_corners E D True None)))
           = {Pos D x y | x y. 0 \<le> x \<and> x < 2 ^ nat D \<and> 0 \<le> y \<and> y < 2 ^ nat D}"
proof -
  have "0 \<le> D" using assms by simp
  then show ?thesis
    using ic_bottom [OF assms, of E] ic_bottom_depth [OF assms, of _ E]
    unfolding grid_set by simp
qed

theorem iter_corners_bottom_only_witness:
  "map tile_pos (fst (iter_corners plane_env 2 True None)) =
     [Pos 2 0 0, Pos 2 1 0, Pos 2 0 1, Pos 2 1 1, Pos 2 2 0, Pos 2 3 0, Pos 2 2 1, Pos 2 3 1,
      Pos 2 2 2, Pos 2 3 2, Pos 2 2 3, Pos 2 3 3, Pos 2 0 2, Pos 2 1 2, Pos 2 0 3, Pos 2 1 3]
   \<and> length (fst (iter_corners plane_env 2 True None)) = 4 ^ nat 2
   \<and> snd (iter_corners plane_env 2 True None) = None"
proof -
  have "map tile_pos (fst (iter_corners plane_env 2 True None)) =
     [Pos 2 0 0, Pos 2 1 0, Pos 2 0 1, Pos 2 1 1, Pos 2 2 0, Pos 2 3 0, Pos 2 2 1, Pos 2 3 1,
      Pos 2 2 2, Pos 2 3 2, Pos 2 2 3, Pos 2 3 3, Pos 2 0 2, Pos 2 1 2, Pos 2 0 3, Pos 2 1 3]"
    by code_simp
  then show ?thesis
    using iter_corners_bottom_only [of 2 plane_env] by simp
qed

text \<open>
  C3 as stated fails at depth 0: the traversal starts at the four tiles of depth 1
  (\<^verbatim>\<open>The n = 0 depth is not included\<close>), so it yields no tile, not \<open>4 ^ 0 = 1\<close>.
\<close>

theorem iter_corners_depth_zero:
  "fst (iter_corners plane_env 0 True None) = []
   \<and> length (fst (iter_corners plane_env 0 True None)) \<noteq> 4 ^ nat 0"
  by code_simp

text \<open>
  C5. For a region \<open>r = (rn, rx, ry)\<close> with \<open>rn \<ge> 1\<close> and a depth \<open>D \<ge> rn\<close>, the
  bottom-only traversal with \<^verbatim>\<open>nxy_tile_filter(rn, rx, ry)\<close> ends normally and yields
  the tiles of the unfiltered bottom-only traversal for which \<^verbatim>\<open>is_subtile(pos, r)\<close> is
  true, in the same order: each of them once, and no other tile.
\<close>

theorem nxy_filter_traversal:
  assumes "1 \<le> rn" "rn \<le> D"
  shows "iter_corners E D True (Some (nxy_tile_filter rn rx ry)) =
           (filter (\<lambda>t. is_subtile (tile_pos t) (Pos rn rx ry) = Inr True)
              (fst (iter_corners E D True None)), None)
       \<and> distinct (map tile_pos (fst (iter_corners E D True (Some (nxy_tile_filter rn rx ry)))))
       \<and> set (map tile_pos (fst (iter_corners E D True (Some (nxy_tile_filter rn rx ry)))))
           = {p \<in> set (map tile_pos (fst (iter_corners E D True None))).
                is_subtile p (Pos rn rx ry) = Inr True}"
proof -
  let ?r = "Pos rn rx ry"
  let ?pc = "\<lambda>t. postfix_corner E t D True (\<lambda>t. Inr True)"
  let ?pf = "\<lambda>t. postfix_corner E t D True (nxy_tile_filter rn rx ry)"
  let ?P = "\<lambda>u. under ?r (tile_pos u)"
  have D: "1 \<le> D" using assms by simp
  have one: "pos_n (tile_pos t) = 1" if "t \<in> set (todo E)" for t
    using that by (auto simp: todo_def)
  have f: "?pf t = (filter ?P (fst (?pc t)), None)" if t: "t \<in> set (todo E)" for t
    using assms one [OF t] by (intro pc_nxy) simp_all
  have ok: "snd (?pc t) = None" if t: "t \<in> set (todo E)" for t
    using pc_bottom [of t D E] one [OF t] D by simp
  have a: "iter_corners E D True None = (concat (map (\<lambda>t. fst (?pc t)) (todo E)), None)"
    unfolding iter_corners_unfold
    by (simp add: yield_from_all_ok list_all_iff ok comp_def)
  have m: "map ?pf (todo E) = map (\<lambda>t. (filter ?P (fst (?pc t)), None)) (todo E)"
    by (intro map_cong refl f)
  have "iter_corners E D True (Some (nxy_tile_filter rn rx ry))
      = yield_from (map (\<lambda>t. (filter ?P (fst (?pc t)), None)) (todo E))"
    by (simp only: iter_corners_unfold m)
  also have "\<dots> = (concat (map (\<lambda>t. filter ?P (fst (?pc t))) (todo E)), None)"
    by (simp add: yield_from_all_ok list_all_iff comp_def)
  also have "concat (map (\<lambda>t. filter ?P (fst (?pc t))) (todo E))
      = filter ?P (fst (iter_corners E D True None))"
    unfolding a by (simp add: filter_concat comp_def)
  also have "\<dots> = filter (\<lambda>t. is_subtile (tile_pos t) ?r = Inr True)
                    (fst (iter_corners E D True None))"
  proof (rule filter_cong [OF refl])
    fix u assume "u \<in> set (fst (iter_corners E D True None))"
    then have "pos_n (tile_pos u) = D" using D by (intro ic_bottom_depth)
    then show "?P u = (is_subtile (tile_pos u) ?r = Inr True)"
      using assms(2) by (simp add: is_subtile_under)
  qed
  finally have e: "iter_corners E D True (Some (nxy_tile_filter rn rx ry)) =
           (filter (\<lambda>t. is_subtile (tile_pos t) ?r = Inr True)
              (fst (iter_corners E D True None)), None)" .
  have d: "distinct (map tile_pos (fst (iter_corners E D True None)))"
    using ic_bottom [OF D, of E] by simp
  have d': "distinct (map tile_pos (filter (\<lambda>t. is_subtile (tile_pos t) ?r = Inr True)
              (fst (iter_corners E D True None))))"
    using d by (rule distinct_map_filter)
  have s: "set (map tile_pos (filter (\<lambda>t. is_subtile (tile_pos t) ?r = Inr True)
              (fst (iter_corners E D True None))))
       = {p \<in> set (map tile_pos (fst (iter_corners E D True None))).
                is_subtile p ?r = Inr True}"
    by auto
  show ?thesis unfolding e fst_conv using d' s by simp
qed

theorem nxy_filter_traversal_witness:
  "map tile_pos (fst (iter_corners plane_env 2 True (Some (nxy_tile_filter 1 1 0)))) =
     [Pos 2 2 0, Pos 2 3 0, Pos 2 2 1, Pos 2 3 1]
   \<and> iter_corners plane_env 2 True (Some (nxy_tile_filter 1 1 0)) =
       (filter (\<lambda>t. is_subtile (tile_pos t) (Pos 1 1 0) = Inr True)
          (fst (iter_corners plane_env 2 True None)), None)"
proof -
  have "map tile_pos (fst (iter_corners plane_env 2 True (Some (nxy_tile_filter 1 1 0)))) =
     [Pos 2 2 0, Pos 2 3 0, Pos 2 2 1, Pos 2 3 1]"
    by code_simp
  then show ?thesis
    using nxy_filter_traversal [of 1 2 plane_env 1 0] by simp
qed

section \<open>The merge pipeline\<close>

lemma loop_base_level:
  "iter_tiles_loop E s depth m True rd tp tiles parents =
     ((map (\<lambda>t. (pth (pos_n (tile_pos t)) (pos_x (tile_pos t)) (pos_y (tile_pos t)),
                   tile_image E s rd t))
         (filter (\<lambda>t. tile_image E s rd t \<noteq> None) tiles), None), parents)"
  by (induction tiles) (simp_all add: Let_def)

lemma loop_no_sentinel:
  "list_all (\<lambda>(p, img). img \<noteq> None)
     (fst (fst (iter_tiles_loop E s depth m blo rd tp tiles parents)))"
proof (induction tiles arbitrary: parents)
  case Nil
  show ?case by simp
next
  case (Cons t tiles)
  show ?case
  proof (cases blo)
    case True
    show ?thesis
      unfolding eqTrueI [OF True] loop_base_level
      by (auto simp: list_all_iff)
  next
    case False
    obtain items r ps where tu:
      "trickle_up E (tile_image E s rd t) (tile_pos t) parents m depth tp = ((items, r), ps)"
      by (metis prod.collapse)
    obtain rest r' ps' where lp:
      "iter_tiles_loop E s depth m blo rd tp tiles ps = ((rest, r'), ps')"
      by (metis prod.collapse)
    have "list_all (\<lambda>(p, img). img \<noteq> None) rest"
      using Cons.IH [of ps] lp by simp
    then show ?thesis
      using False tu lp by (cases r) (auto simp: Let_def list_all_iff)
  qed
qed

text \<open>
  C7 (as amended). With \<^verbatim>\<open>base_level_only\<close> set, the loop of \<^verbatim>\<open>iter_tiles\<close> emits
  the pair (path of the tile, image) for exactly the tiles of the traversal whose image
  is not \<^verbatim>\<open>None\<close>, in the order of the traversal; a tile whose image is \<^verbatim>\<open>None\<close> is
  skipped. Nothing is aggregated: the dictionary \<^verbatim>\<open>parents\<close> is left as it was and the
  merge function plays no part. \<^verbatim>\<open>iter_tiles\<close> yields these pairs for the tiles of
  \<^verbatim>\<open>iter_corners(max(depth, 1), bottom_only=merge, tile_filter)\<close> and ends as the
  traversal ends.
\<close>

theorem base_level_only_emits_present_images:
  "iter_tiles_loop E s depth m True rd tp tiles parents =
     ((map (\<lambda>t. (pth (pos_n (tile_pos t)) (pos_x (tile_pos t)) (pos_y (tile_pos t)),
                   tile_image E s rd t))
         (filter (\<lambda>t. tile_image E s rd t \<noteq> None) tiles), None), parents)
   \<and> fst (iter_tiles E s depth merge True tile_filter rd tp) =
       map (\<lambda>t. (pth (pos_n (tile_pos t)) (pos_x (tile_pos t)) (pos_y (tile_pos t)),
                  tile_image E s rd t))
         (filter (\<lambda>t. tile_image E s rd t \<noteq> None)
            (fst (iter_corners E (max depth 1) (merge \<noteq> MergeFalse)
                    (Some (case tile_filter of None \<Rightarrow> (\<lambda>t. Inr True) | Some f \<Rightarrow> f)))))
   \<and> snd (iter_tiles E s depth merge True tile_filter rd tp) =
       snd (iter_corners E (max depth 1) (merge \<noteq> MergeFalse)
              (Some (case tile_filter of None \<Rightarrow> (\<lambda>t. Inr True) | Some f \<Rightarrow> f)))"
proof -
  have m: "((case merge of MergeTrue \<Rightarrow> Some (default_merge E) | MergeFalse \<Rightarrow> None
             | MergeCallable f \<Rightarrow> Some f) \<noteq> None) = (merge \<noteq> MergeFalse)"
    by (cases merge) simp_all
  show ?thesis
    unfolding iter_tiles_def Let_def m loop_base_level
    by (simp add: split_beta)
qed

text \<open>
  C7 as stated fails: with a sampler that returns \<^verbatim>\<open>None\<close> for every tile and
  \<^verbatim>\<open>base_level_only\<close> set, the traversal of depth 1 has four tiles and
  \<^verbatim>\<open>iter_tiles\<close> yields no pair at all (line 323: \<^verbatim>\<open>continue\<close>).
\<close>

theorem base_level_only_skips_sentinel:
  "length (fst (iter_corners plane_env (max 1 1) True None)) = 4
   \<and> iter_tiles plane_env (SamplerFunc (\<lambda>l b. None)) 1 MergeTrue True None None 0 = ([], None)"
  by code_simp

text \<open>
  C9. With \<^verbatim>\<open>base_level_only\<close> false, no pair yielded by \<^verbatim>\<open>iter_tiles\<close> has the
  image \<^verbatim>\<open>None\<close>, whatever the sampler, depth, merge policy, filter, restart
  directory and top layer, and also when the run ends with an exception.
\<close>

theorem merge_pipeline_no_sentinel:
  "\<forall>(p, img)\<in>set (fst (iter_tiles E s depth merge False tile_filter rd tp)). img \<noteq> None"
proof -
  have "list_all (\<lambda>(p, img). img \<noteq> None) (fst (iter_tiles E s depth merge False tile_filter rd tp))"
    using loop_no_sentinel [of E s depth _ False rd tp _ "[]"]
    unfolding iter_tiles_def Let_def
    by (auto simp: split_beta split: option.splits prod.splits)
  then show ?thesis by (simp add: list_all_iff)
qed

theorem merge_pipeline_no_sentinel_witness:
  "fst (iter_tiles plane_env (SamplerFunc (\<lambda>l b. if hd l = 0 then None else Some [[hd l]]))
          1 MergeTrue False None None 0) =
     [(''1/0/0_1.png'', Some [[90]]), (''1/1/1_0.png'', Some [[180]]),
      (''0/0/0_0.png'', Some [[135 / 2]])]
   \<and> list_all (\<lambda>(p, img). img \<noteq> None)
         (fst (iter_tiles plane_env (SamplerFunc (\<lambda>l b. if hd l = 0 then None else Some [[hd l]]))
                 1 MergeTrue False None None 0))"
proof -
  have "fst (iter_tiles plane_env (SamplerFunc (\<lambda>l b. if hd l = 0 then None else Some [[hd l]]))
          1 MergeTrue False None None 0) =
     [(''1/0/0_1.png'', Some [[90]]), (''1/1/1_0.png'', Some [[180]]),
      (''0/0/0_0.png'', Some [[135 / 2]])]"
    by code_simp
  then show ?thesis
    using merge_pipeline_no_sentinel
      [of plane_env "SamplerFunc (\<lambda>l b. if hd l = 0 then None else Some [[hd l]])"
          1 MergeTrue None None 0]
    by (simp add: list_all_iff)
qed

text \<open>
  C2. A run of \<^verbatim>\<open>iter_tiles\<close> in which the assertion of \<^verbatim>\<open>_trickle_up\<close> fails:
  depth 2, the default merge, and a tile filter that rejects the bottom right child of
  every depth-1 tile. Each rejected tile leaves three images buffered for its parent for
  good; at the first tile of the fourth group 9 images are buffered, more than
  \<open>4 * max(depth, 1) = 8\<close>, and the run ends with AssertionError.
\<close>

theorem assertion_fails_with_pruning_filter:
  "snd (iter_tiles plane_env (SamplerFunc (\<lambda>l b. Some [[1]])) 2 MergeTrue False
          (Some (\<lambda>t. Inr (\<not> (pos_n (tile_pos t) = 2 \<and> pos_x (tile_pos t) mod 2 = 1
                               \<and> pos_y (tile_pos t) mod 2 = 1))))
          None 0) = Some AssertionError"
  by code_simp

text \<open>
  The same run with the default filter passes every assertion and ends normally, with
  the 16 tiles of depth 2, the 4 of depth 1 and the root.
\<close>

lemma assertion_holds_without_pruning_example:
  "snd (iter_tiles plane_env (SamplerFunc (\<lambda>l b. Some [[1]])) 2 MergeTrue False None None 0)
     = None
   \<and> length (fst (iter_tiles plane_env (SamplerFunc (\<lambda>l b. Some [[1]])) 2 MergeTrue False
                      None None 0)) = 21"
  by code_simp

lemma pth_root: "pth 0 0 0 = ''0/0/0_0.png''"
  by code_simp

lemma trickle_root:
  "trickle_up E im (Pos 0 0 0) [] m depth 0 =
     ((if 0 \<le> depth then [(''0/0/0_0.png'', im)] else [], None), [])"
  by (subst trickle_up.simps) (simp add: Let_def pth_root max_def)

lemma trickle_up_full:
  assumes bound: "(\<Sum>(k, v)\<leftarrow>parents. int (length v)) \<le> 4 * max depth 1"
    and go: "pos_n node \<noteq> tp" "merge \<noteq> None \<or> pos_n node \<le> 1"
    and par: "parent node = (pp, xc, yc)"
    and reg: "corners = AList.update (xc, yc) im
                (case map_of parents pp of None \<Rightarrow> [] | Some c \<Rightarrow> c)"
    and full: "4 \<le> length corners"
    and quads: "map_of corners (0, 0) = Some ul" "map_of corners (1, 0) = Some ur"
               "map_of corners (0, 1) = Some bl" "map_of corners (1, 1) = Some br"
    and out: "out = (if pos_n node \<le> depth
                     then [(pth (pos_n node) (pos_x node) (pos_y node), im)] else [])"
  shows "map_of (AList.delete pp (AList.update pp corners parents)) pp = None
     \<and> (ul = None \<and> ur = None \<and> bl = None \<and> br = None \<longrightarrow>
           trickle_up E im node parents merge depth tp =
             (case trickle_up E None pp (AList.delete pp (AList.update pp corners parents))
                     merge depth tp of
                ((items, r), ps) \<Rightarrow> ((out @ items, r), ps)))
     \<and> (List.map_filter id [ul, ur, bl, br] = present # others \<and>
         np_shape E present \<noteq> [] \<and>
         np_hstack E (case ul of None \<Rightarrow> np_zeros E (np_shape E present) | Some a \<Rightarrow> a)
                     (case ur of None \<Rightarrow> np_zeros E (np_shape E present) | Some a \<Rightarrow> a)
           = Inr upper \<and>
         np_hstack E (case bl of None \<Rightarrow> np_zeros E (np_shape E present) | Some a \<Rightarrow> a)
                     (case br of None \<Rightarrow> np_zeros E (np_shape E present) | Some a \<Rightarrow> a)
           = Inr lower \<and>
         np_vstack E upper lower = Inr mosaic \<and>
         (case merge of None \<Rightarrow> default_merge E | Some f \<Rightarrow> f) mosaic = Inr parent_image \<longrightarrow>
           trickle_up E im node parents merge depth tp =
             (case trickle_up E (Some parent_image) pp
                     (AList.delete pp (AList.update pp corners parents)) merge depth tp of
                ((items, r), ps) \<Rightarrow> ((out @ items, r), ps)))"
proof -
  have A: "map_of (AList.delete pp (AList.update pp corners parents)) pp = None"
    by (simp add: AList.delete_conv')
  have nl: "\<not> length corners < 4" using full by simp
  have g: "\<not> (merge = None \<and> 1 < pos_n node)" using go(2) by auto
  have B: "ul = None \<and> ur = None \<and> bl = None \<and> br = None \<longrightarrow>
           trickle_up E im node parents merge depth tp =
             (case trickle_up E None pp (AList.delete pp (AList.update pp corners parents))
                     merge depth tp of
                ((items, r), ps) \<Rightarrow> ((out @ items, r), ps))"
    apply (rule impI)
    apply (subst trickle_up.simps)
    apply (simp only: Let_def bound go(1) g par reg [symmetric] nl quads out [symmetric]
        not_True_eq_False not_False_eq_True if_True if_False prod.case option.case)
    apply simp
    done
  have C: "List.map_filter id [ul, ur, bl, br] = present # others \<and>
         np_shape E present \<noteq> [] \<and>
         np_hstack E (case ul of None \<Rightarrow> np_zeros E (np_shape E present) | Some a \<Rightarrow> a)
                     (case ur of None \<Rightarrow> np_zeros E (np_shape E present) | Some a \<Rightarrow> a)
           = Inr upper \<and>
         np_hstack E (case bl of None \<Rightarrow> np_zeros E (np_shape E present) | Some a \<Rightarrow> a)
                     (case br of None \<Rightarrow> np_zeros E (np_shape E present) | Some a \<Rightarrow> a)
           = Inr lower \<and>
         np_vstack E upper lower = Inr mosaic \<and>
         (case merge of None \<Rightarrow> default_merge E | Some f \<Rightarrow> f) mosaic = Inr parent_image \<longrightarrow>
           trickle_up E im node parents merge depth tp =
             (case trickle_up E (Some parent_image) pp
                     (AList.delete pp (AList.update pp corners parents)) merge depth tp of
                ((items, r), ps) \<Rightarrow> ((out @ items, r), ps))"
  proof (intro impI, elim conjE)
    assume a: "List.map_filter id [ul, ur, bl, br] = present # others"
      "np_shape E present \<noteq> []"
      "np_hstack E (case ul of None \<Rightarrow> np_zeros E (np_shape E present) | Some a \<Rightarrow> a)
                     (case ur of None \<Rightarrow> np_zeros E (np_shape E present) | Some a \<Rightarrow> a)
           = Inr upper"
      "np_hstack E (case bl of None \<Rightarrow> np_zeros E (np_shape E present) | Some a \<Rightarrow> a)
                     (case br of None \<Rightarrow> np_zeros E (np_shape E present) | Some a \<Rightarrow> a)
           = Inr lower"
      "np_vstack E upper lower = Inr mosaic"
      "(case merge of None \<Rightarrow> default_merge E | Some f \<Rightarrow> f) mosaic = Inr parent_image"
    have some: "\<not> (ul = None \<and> ur = None \<and> bl = None \<and> br = None)"
      using a(1) by (auto simp: List.map_filter_simps split: option.splits)
    show "trickle_up E im node parents merge depth tp =
             (case trickle_up E (Some parent_image) pp
                     (AList.delete pp (AList.update pp corners parents)) merge depth tp of
                ((items, r), ps) \<Rightarrow> ((out @ items, r), ps))"
      apply (subst trickle_up.simps)
      apply (simp only: Let_def bound go(1) g par reg [symmetric] nl quads out [symmetric]
          not_True_eq_False not_False_eq_True if_True if_False prod.case option.case
          some a list.case and_then.simps sum.case)
      done
  qed
  from A B C show ?thesis by blast
qed

lemma trickle_up_swallow:
  assumes bound: "(\<Sum>(k, v)\<leftarrow>parents. int (length v)) \<le> 4 * max depth 1"
    and go: "pos_n node \<noteq> tp" "merge \<noteq> None \<or> pos_n node \<le> 1"
    and par: "parent node = (pp, xc, yc)"
    and reg: "corners = AList.update (xc, yc) im
                (case map_of parents pp of None \<Rightarrow> [] | Some c \<Rightarrow> c)"
    and full: "4 \<le> length corners"
    and quads: "map_of corners (0, 0) = Some ul" "map_of corners (1, 0) = Some ur"
               "map_of corners (0, 1) = Some bl" "map_of corners (1, 1) = Some br"
    and out: "out = (if pos_n node \<le> depth
                     then [(pth (pos_n node) (pos_x node) (pos_y node), im)] else [])"
    and present: "List.map_filter id [ul, ur, bl, br] = present # others"
    and fails: "np_shape E present = [] \<or>
         and_then
           (np_hstack E (case ul of None \<Rightarrow> np_zeros E (np_shape E present) | Some a \<Rightarrow> a)
                        (case ur of None \<Rightarrow> np_zeros E (np_shape E present) | Some a \<Rightarrow> a))
           (\<lambda>upper.
              and_then
                (np_hstack E (case bl of None \<Rightarrow> np_zeros E (np_shape E present) | Some a \<Rightarrow> a)
                             (case br of None \<Rightarrow> np_zeros E (np_shape E present) | Some a \<Rightarrow> a))
                (\<lambda>lower.
                   and_then (np_vstack E upper lower)
                     (\<lambda>mosaic. (case merge of None \<Rightarrow> default_merge E | Some f \<Rightarrow> f) mosaic)))
           = Inl e"
  shows "trickle_up E im node parents merge depth tp =
           (case trickle_up E None pp (AList.delete pp (AList.update pp corners parents))
                   merge depth tp of
              ((items, r), ps) \<Rightarrow> ((out @ items, r), ps))"
proof -
  have nl: "\<not> length corners < 4" using full by simp
  have g: "\<not> (merge = None \<and> 1 < pos_n node)" using go(2) by auto
  have some: "\<not> (ul = None \<and> ur = None \<and> bl = None \<and> br = None)"
    using present by (auto simp: List.map_filter_simps split: option.splits)
  show ?thesis
  proof (cases "np_shape E present = []")
    case True
    show ?thesis
      apply (subst trickle_up.simps)
      apply (simp only: Let_def bound go(1) g par reg [symmetric] nl quads out [symmetric]
          not_True_eq_False not_False_eq_True if_True if_False prod.case option.case
          some present list.case True refl)
      done
  next
    case False
    with fails have f: "and_then
           (np_hstack E (case ul of None \<Rightarrow> np_zeros E (np_shape E present) | Some a \<Rightarrow> a)
                        (case ur of None \<Rightarrow> np_zeros E (np_shape E present) | Some a \<Rightarrow> a))
           (\<lambda>upper.
              and_then
                (np_hstack E (case bl of None \<Rightarrow> np_zeros E (np_shape E present) | Some a \<Rightarrow> a)
                             (case br of None \<Rightarrow> np_zeros E (np_shape E present) | Some a \<Rightarrow> a))
                (\<lambda>lower.
                   and_then (np_vstack E upper lower)
                     (\<lambda>mosaic. (case merge of None \<Rightarrow> default_merge E | Some f \<Rightarrow> f) mosaic)))
           = Inl e" by simp
    show ?thesis
      apply (subst trickle_up.simps)
      apply (simp only: Let_def bound go(1) g par reg [symmetric] nl quads out [symmetric]
          not_True_eq_False not_False_eq_True if_True if_False prod.case option.case
          some present list.case False f sum.case)
      done
  qed
qed

text \<open>
  C1 (as amended). In \<^verbatim>\<open>_trickle_up\<close>, when the call gets past the assertion and the
  two stop conditions and the entry of the parent has all its quadrants once the image is
  registered: the entry is removed from \<^verbatim>\<open>parents\<close>; if the four quadrant images are
  all \<^verbatim>\<open>None\<close>, the procedure recurses on (\<^verbatim>\<open>None\<close>, parent); otherwise every absent
  quadrant is replaced by zeros of the shape of the first present one and the mosaic is
  the upper row (top left, top right) stacked on the lower row (bottom left, bottom
  right). Where that shape is not empty and the stacking and the merge function return,
  the procedure recurses on (the merged mosaic, parent); where the shape is empty, or the
  stacking or the merge function raises, the exception is swallowed and the procedure
  recurses on (\<^verbatim>\<open>None\<close>, parent). The pairs of the recursive call follow the call's own
  pair.
\<close>

theorem trickle_up_fourth_quadrant:
  assumes bound: "(\<Sum>(k, v)\<leftarrow>parents. int (length v)) \<le> 4 * max depth 1"
    and go: "pos_n node \<noteq> tp" "merge \<noteq> None \<or> pos_n node \<le> 1"
    and par: "parent node = (pp, xc, yc)"
    and reg: "corners = AList.update (xc, yc) im
                (case map_of parents pp of None \<Rightarrow> [] | Some c \<Rightarrow> c)"
    and full: "4 \<le> length corners"
    and quads: "map_of corners (0, 0) = Some ul" "map_of corners (1, 0) = Some ur"
               "map_of corners (0, 1) = Some bl" "map_of corners (1, 1) = Some br"
    and out: "out = (if pos_n node \<le> depth
                     then [(pth (pos_n node) (pos_x node) (pos_y node), im)] else [])"
  shows "map_of (AList.delete pp (AList.update pp corners parents)) pp = None
     \<and> (ul = None \<and> ur = None \<and> bl = None \<and> br = None \<longrightarrow>
           trickle_up E im node parents merge depth tp =
             (case trickle_up E None pp (AList.delete pp (AList.update pp corners parents))
                     merge depth tp of
                ((items, r), ps) \<Rightarrow> ((out @ items, r), ps)))
     \<and> (List.map_filter id [ul, ur, bl, br] = present # others \<and>
         np_shape E present \<noteq> [] \<and>
         np_hstack E (case ul of None \<Rightarrow> np_zeros E (np_shape E present) | Some a \<Rightarrow> a)
                     (case ur of None \<Rightarrow> np_zeros E (np_shape E present) | Some a \<Rightarrow> a)
           = Inr upper \<and>
         np_hstack E (case bl of None \<Rightarrow> np_zeros E (np_shape E present) | Some a \<Rightarrow> a)
                     (case br of None \<Rightarrow> np_zeros E (np_shape E present) | Some a \<Rightarrow> a)
           = Inr lower \<and>
         np_vstack E upper lower = Inr mosaic \<and>
         (case merge of None \<Rightarrow> default_merge E | Some f \<Rightarrow> f) mosaic = Inr parent_image \<longrightarrow>
           trickle_up E im node parents merge depth tp =
             (case trickle_up E (Some parent_image) pp
                     (AList.delete pp (AList.update pp corners parents)) merge depth tp of
                ((items, r), ps) \<Rightarrow> ((out @ items, r), ps)))
     \<and> (List.map_filter id [ul, ur, bl, br] = present # others \<and>
         (np_shape E present = [] \<or>
          and_then
           (np_hstack E (case ul of None \<Rightarrow> np_zeros E (np_shape E present) | Some a \<Rightarrow> a)
                        (case ur of None \<Rightarrow> np_zeros E (np_shape E present) | Some a \<Rightarrow> a))
           (\<lambda>upper.
              and_then
                (np_hstack E (case bl of None \<Rightarrow> np_zeros E (np_shape E present) | Some a \<Rightarrow> a)
                             (case br of None \<Rightarrow> np_zeros E (np_shape E present) | Some a \<Rightarrow> a))
                (\<lambda>lower.
                   and_then (np_vstack E upper lower)
                     (\<lambda>mosaic. (case merge of None \<Rightarrow> default_merge E | Some f \<Rightarrow> f) mosaic)))
           = Inl e) \<longrightarrow>
           trickle_up E im node parents merge depth tp =
             (case trickle_up E None pp (AList.delete pp (AList.update pp corners parents))
                     merge depth tp of
                ((items, r), ps) \<Rightarrow> ((out @ items, r), ps)))"
proof -
  note f = trickle_up_full [OF bound go par reg full quads out, of E]
  have d: "List.map_filter id [ul, ur, bl, br] = present # others \<and>
         (np_shape E present = [] \<or>
          and_then
           (np_hstack E (case ul of None \<Rightarrow> np_zeros E (np_shape E present) | Some a \<Rightarrow> a)
                        (case ur of None \<Rightarrow> np_zeros E (np_shape E present) | Some a \<Rightarrow> a))
           (\<lambda>upper.
              and_then
                (np_hstack E (case bl of None \<Rightarrow> np_zeros E (np_shape E present) | Some a \<Rightarrow> a)
                             (case br of None \<Rightarrow> np_zeros E (np_shape E present) | Some a \<Rightarrow> a))
                (\<lambda>lower.
                   and_then (np_vstack E upper lower)
                     (\<lambda>mosaic. (case merge of None \<Rightarrow> default_merge E | Some f \<Rightarrow> f) mosaic)))
           = Inl e) \<longrightarrow>
           trickle_up E im node parents merge depth tp =
             (case trickle_up E None pp (AList.delete pp (AList.update pp corners parents))
                     merge depth tp of
                ((items, r), ps) \<Rightarrow> ((out @ items, r), ps))"
    using trickle_up_swallow [OF bound go par reg full quads out, of present others E e]
    by (intro impI) (elim conjE, simp)
  show ?thesis
    apply (intro conjI)
       apply (rule f [THEN conjunct1])
      apply (rule f [THEN conjunct2, THEN conjunct1])
     apply (rule f [THEN conjunct2, THEN conjunct2])
    apply (rule d)
    done
qed

theorem trickle_up_fourth_quadrant_witness:
  "trickle_up plane_env (Some [[30]]) (Pos 1 0 1)
     [(Pos 0 0 0, [((0, 0), Some [[10]]), ((1, 0), None), ((1, 1), Some [[40]])])]
     (Some (default_merge plane_env)) 1 0 =
   (([(''1/1/1_0.png'', Some [[30]]), (''0/0/0_0.png'', Some [[20]])], None), [])"
proof -
  let ?P = "[(Pos 0 0 0, [((0::int, 0::int), Some [[10::rat]]), ((1, 0), None), ((1, 1), Some [[40]])])]"
  let ?C = "[((0::int, 0::int), Some [[10::rat]]), ((1, 0), None), ((1, 1), Some [[40]]),
             ((0, 1), Some [[30]])]"
  have t: "trickle_up plane_env (Some [[30]]) (Pos 1 0 1) ?P (Some (default_merge plane_env)) 1 0 =
      (case trickle_up plane_env (Some [[20]]) (Pos 0 0 0)
              (AList.delete (Pos 0 0 0) (AList.update (Pos 0 0 0) ?C ?P))
              (Some (default_merge plane_env)) 1 0 of
         ((items, r), ps) \<Rightarrow> (([(''1/1/1_0.png'', Some [[30]])] @ items, r), ps))"
  proof (rule trickle_up_fourth_quadrant [THEN conjunct2, THEN conjunct2, THEN conjunct1,
        rule_format,
        where ul = "Some [[10]]" and ur = None and bl = "Some [[30]]" and br = "Some [[40]]"
          and present = "[[10]]" and others = "[[[30]], [[40]]]"
          and upper = "[[10, 0]]" and lower = "[[30, 40]]" and mosaic = "[[10, 0], [30, 40]]"
          and xc = 0 and yc = 1])
    show "(\<Sum>(k, v)\<leftarrow>?P. int (length v)) \<le> 4 * max 1 1" by simp
    show "pos_n (Pos 1 0 1) \<noteq> 0" by simp
    show "Some (default_merge plane_env) \<noteq> None \<or> pos_n (Pos 1 0 1) \<le> 1" by simp
    show "parent (Pos 1 0 1) = (Pos 0 0 0, 0, 1)" by (simp add: parent_def)
    show "?C = AList.update (0, 1) (Some [[30]])
                (case map_of ?P (Pos 0 0 0) of None \<Rightarrow> [] | Some c \<Rightarrow> c)" by simp
    show "4 \<le> length ?C" by simp
    show "map_of ?C (0, 0) = Some (Some [[10]])" "map_of ?C (1, 0) = Some None"
      "map_of ?C (0, 1) = Some (Some [[30]])" "map_of ?C (1, 1) = Some (Some [[40]])"
      by simp_all
    show "[(''1/1/1_0.png'', Some [[30::rat]])] =
        (if pos_n (Pos 1 0 1) \<le> 1
         then [(pth (pos_n (Pos 1 0 1)) (pos_x (Pos 1 0 1)) (pos_y (Pos 1 0 1)), Some [[30]])]
         else [])" by code_simp
    show "List.map_filter id [Some [[10::rat]], None, Some [[30]], Some [[40]]]
            = [[10]] # [[[30]], [[40]]] \<and>
         np_shape plane_env [[10]] \<noteq> [] \<and>
         np_hstack plane_env
           (case Some [[10]] of None \<Rightarrow> np_zeros plane_env (np_shape plane_env [[10]]) | Some a \<Rightarrow> a)
           (case None of None \<Rightarrow> np_zeros plane_env (np_shape plane_env [[10]]) | Some a \<Rightarrow> a)
           = Inr [[10, 0]] \<and>
         np_hstack plane_env
           (case Some [[30]] of None \<Rightarrow> np_zeros plane_env (np_shape plane_env [[10]]) | Some a \<Rightarrow> a)
           (case Some [[40]] of None \<Rightarrow> np_zeros plane_env (np_shape plane_env [[10]]) | Some a \<Rightarrow> a)
           = Inr [[30, 40]] \<and>
         np_vstack plane_env [[10, 0]] [[30, 40]] = Inr [[10, 0], [30, 40]] \<and>
         (case Some (default_merge plane_env) of None \<Rightarrow> default_merge plane_env | Some f \<Rightarrow> f)
            [[10, 0], [30, 40]] = Inr [[20]]"
      by code_simp
  qed
  have r: "trickle_up plane_env (Some [[20]]) (Pos 0 0 0)
              (AList.delete (Pos 0 0 0) (AList.update (Pos 0 0 0) ?C ?P))
              (Some (default_merge plane_env)) 1 0 =
          (([(''0/0/0_0.png'', Some [[20]])], None), [])"
    by (simp add: trickle_root)
  show ?thesis unfolding t r by simp
qed

text \<open>
  C1 as stated fails where the merge cannot be completed. With four same-shaped images
  and a merge function that raises, and with the default merge and a top right image of
  two rows beside a top left image of one row (\<^verbatim>\<open>np.hstack\<close> raises), the bare
  \<^verbatim>\<open>except\<close> of lines 397 to 402 makes the parent's image \<^verbatim>\<open>None\<close> although no
  quadrant is \<^verbatim>\<open>None\<close>, and the run goes on.
\<close>

theorem trickle_up_swallows_failed_merge:
  "trickle_up plane_env (Some [[30]]) (Pos 1 0 1)
     [(Pos 0 0 0, [((0, 0), Some [[10]]), ((1, 0), Some [[20]]), ((1, 1), Some [[40]])])]
     (Some (\<lambda>mosaic. Inl OtherError)) 1 0 =
   (([(''1/1/1_0.png'', Some [[30]]), (''0/0/0_0.png'', None)], None), [])
   \<and> trickle_up plane_env (Some [[30]]) (Pos 1 0 1)
     [(Pos 0 0 0, [((0, 0), Some [[10]]), ((1, 0), Some [[1], [2]]), ((1, 1), Some [[40]])])]
     (Some (default_merge plane_env)) 1 0 =
   (([(''1/1/1_0.png'', Some [[30]]), (''0/0/0_0.png'', None)], None), [])"
  by code_simp

lemma loop_append:
  "iter_tiles_loop E s depth m False rd tp (ts @ us) parents =
     (case iter_tiles_loop E s depth m False rd tp ts parents of
        ((ys, Some e), ps) \<Rightarrow> ((ys, Some e), ps)
      | ((ys, None), ps) \<Rightarrow>
          (case iter_tiles_loop E s depth m False rd tp us ps of
             ((zs, r), ps') \<Rightarrow> ((ys @ zs, r), ps')))"
proof (induction ts arbitrary: parents)
  case Nil
  show ?case by (simp split: prod.splits)
next
  case (Cons t ts)
  obtain items r ps1 where tu:
    "trickle_up E (tile_image E s rd t) (tile_pos t) parents m depth tp = ((items, r), ps1)"
    by (metis prod.collapse)
  show ?case
  proof (cases r)
    case (Some e)
    then show ?thesis by (simp add: Let_def tu)
  next
    case None
    obtain ys r2 ps2 where l1:
      "iter_tiles_loop E s depth m False rd tp ts ps1 = ((ys, r2), ps2)"
      by (metis prod.collapse)
    obtain zs r3 ps3 where l2:
      "iter_tiles_loop E s depth m False rd tp us ps2 = ((zs, r3), ps3)"
      by (metis prod.collapse)
    show ?thesis
      by (cases r2) (simp_all add: Let_def tu None Cons.IH [of ps1] l1 l2)
  qed
qed

lemma trickle_deep:
  assumes "(\<Sum>(k, v)\<leftarrow>parents. int (length v)) \<le> 4 * max depth 1" "2 \<le> pos_n node"
  shows "trickle_up E im node parents None depth 0 =
           ((if pos_n node \<le> depth
             then [(pth (pos_n node) (pos_x node) (pos_y node), im)] else [], None), parents)"
  using assms by (subst trickle_up.simps) (simp add: Let_def)

lemma loop_deep:
  assumes "(\<Sum>(k, v)\<leftarrow>parents. int (length v)) \<le> 4 * max depth 1"
  shows "list_all (\<lambda>t. 2 \<le> pos_n (tile_pos t)) ts \<Longrightarrow>
         \<exists>ys. iter_tiles_loop E s depth None False rd 0 ts parents = ((ys, None), parents)"
proof (induction ts)
  case Nil
  show ?case by simp
next
  case (Cons t ts)
  then obtain ys where
    ys: "iter_tiles_loop E s depth None False rd 0 ts parents = ((ys, None), parents)"
    by auto
  have "2 \<le> pos_n (tile_pos t)" using Cons.prems by simp
  then show ?case
    by (simp add: Let_def trickle_deep [OF assms] ys)
qed

lemma pc_all_unfold:
  assumes "pos_n (tile_pos t) \<le> D"
    and "\<And>c. c \<in> set (div4 E t) \<Longrightarrow> snd (postfix_corner E c D False (\<lambda>t. Inr True)) = None"
  shows "postfix_corner E t D False (\<lambda>t. Inr True) =
           (concat (map (\<lambda>c. fst (postfix_corner E c D False (\<lambda>t. Inr True))) (div4 E t)) @ [t],
            None)"
proof -
  have "yield_from (map (\<lambda>c. postfix_corner E c D False (\<lambda>t. Inr True)) (div4 E t)) =
      (concat (map (\<lambda>c. fst (postfix_corner E c D False (\<lambda>t. Inr True))) (div4 E t)), None)"
    by (simp add: yield_from_all_ok list_all_iff assms(2) comp_def)
  then show ?thesis
    using assms(1) by (subst postfix_corner.simps) simp
qed

lemma pc_all:
  "pos_n (tile_pos t) \<le> D \<Longrightarrow>
   \<exists>sub. postfix_corner E t D False (\<lambda>t. Inr True) = (sub @ [t], None)
        \<and> list_all (\<lambda>u. pos_n (tile_pos t) < pos_n (tile_pos u)) sub"
proof (induction "nat (D - pos_n (tile_pos t))" arbitrary: t)
  case 0
  then have n: "pos_n (tile_pos t) = D" by simp
  have "postfix_corner E t D False (\<lambda>t. Inr True) = ([t], None)"
    using n by (rule pc_leaf) simp
  then show ?case by simp
next
  case (Suc k)
  let ?pc = "\<lambda>c. postfix_corner E c D False (\<lambda>t. Inr True)"
  have ih: "\<exists>sub. ?pc c = (sub @ [c], None)
        \<and> list_all (\<lambda>u. pos_n (tile_pos c) < pos_n (tile_pos u)) sub"
    if c: "c \<in> set (div4 E t)" for c
  proof (rule Suc.hyps(1))
    have d: "pos_n (tile_pos c) = pos_n (tile_pos t) + 1" using c by (rule child_depth)
    show "k = nat (D - pos_n (tile_pos c))" using Suc.hyps(2) d by simp
    show "pos_n (tile_pos c) \<le> D" using Suc.hyps(2) d by simp
  qed
  have ok: "snd (?pc c) = None" if c: "c \<in> set (div4 E t)" for c
    using ih [OF c] by auto
  have deeper: "pos_n (tile_pos t) < pos_n (tile_pos u)"
    if c: "c \<in> set (div4 E t)" and u: "u \<in> set (fst (?pc c))" for c u
  proof -
    obtain sub where sub: "?pc c = (sub @ [c], None)"
      "list_all (\<lambda>u. pos_n (tile_pos c) < pos_n (tile_pos u)) sub"
      using ih [OF c] by auto
    have d: "pos_n (tile_pos c) = pos_n (tile_pos t) + 1" using c by (rule child_depth)
    from u sub have "u = c \<or> pos_n (tile_pos c) < pos_n (tile_pos u)"
      by (auto simp: list_all_iff)
    with d show ?thesis by auto
  qed
  have "?pc t = (concat (map (\<lambda>c. fst (?pc c)) (div4 E t)) @ [t], None)"
    using Suc.prems ok by (rule pc_all_unfold)
  moreover have "list_all (\<lambda>u. pos_n (tile_pos t) < pos_n (tile_pos u))
      (concat (map (\<lambda>c. fst (?pc c)) (div4 E t)))"
    using deeper by (auto simp: list_all_iff)
  ultimately show ?case by blast
qed

lemma iter_corners_all:
  assumes "1 \<le> D" and t: "todo E = [b0, b1, b2, b3]"
  shows "\<exists>s0 s1 s2 s3.
           iter_corners E D False None =
             (s0 @ [b0] @ s1 @ [b1] @ s2 @ [b2] @ s3 @ [b3], None)
         \<and> list_all (\<lambda>t. 2 \<le> pos_n (tile_pos t)) s0
         \<and> list_all (\<lambda>t. 2 \<le> pos_n (tile_pos t)) s1
         \<and> list_all (\<lambda>t. 2 \<le> pos_n (tile_pos t)) s2
         \<and> list_all (\<lambda>t. 2 \<le> pos_n (tile_pos t)) s3"
proof -
  let ?pc = "\<lambda>c. postfix_corner E c D False (\<lambda>t. Inr True)"
  have "map (\<lambda>t. pos_n (tile_pos t)) (todo E) = [1, 1, 1, 1]"
    by (simp add: todo_def)
  then have one: "pos_n (tile_pos b0) = 1" "pos_n (tile_pos b1) = 1"
    "pos_n (tile_pos b2) = 1" "pos_n (tile_pos b3) = 1"
    unfolding t by simp_all
  have ex: "\<exists>sub. ?pc b = (sub @ [b], None) \<and> list_all (\<lambda>t. 2 \<le> pos_n (tile_pos t)) sub"
    if "pos_n (tile_pos b) = 1" for b
  proof -
    from that assms have "pos_n (tile_pos b) \<le> D" by simp
    from pc_all [OF this, of E] obtain sub where
      sub: "?pc b = (sub @ [b], None)" "list_all (\<lambda>u. pos_n (tile_pos b) < pos_n (tile_pos u)) sub"
      by blast
    have "2 \<le> pos_n (tile_pos u)" if "u \<in> set sub" for u
    proof -
      have "pos_n (tile_pos b) < pos_n (tile_pos u)"
        using sub(2) that by (simp add: list_all_iff)
      then show ?thesis using \<open>pos_n (tile_pos b) = 1\<close> by simp
    qed
    then have "list_all (\<lambda>t. 2 \<le> pos_n (tile_pos t)) sub" by (simp add: list_all_iff)
    with sub(1) show ?thesis by blast
  qed
  obtain s0 s1 s2 s3 where
    s: "?pc b0 = (s0 @ [b0], None)" "list_all (\<lambda>t. 2 \<le> pos_n (tile_pos t)) s0"
       "?pc b1 = (s1 @ [b1], None)" "list_all (\<lambda>t. 2 \<le> pos_n (tile_pos t)) s1"
       "?pc b2 = (s2 @ [b2], None)" "list_all (\<lambda>t. 2 \<le> pos_n (tile_pos t)) s2"
       "?pc b3 = (s3 @ [b3], None)" "list_all (\<lambda>t. 2 \<le> pos_n (tile_pos t)) s3"
    using ex [OF one(1)] ex [OF one(2)] ex [OF one(3)] ex [OF one(4)] by blast
  have "iter_corners E D False None = yield_from [?pc b0, ?pc b1, ?pc b2, ?pc b3]"
    unfolding iter_corners_unfold t by simp
  also have "\<dots> = (s0 @ [b0] @ s1 @ [b1] @ s2 @ [b2] @ s3 @ [b3], None)"
    by (simp add: s)
  finally show ?thesis using s by blast
qed

lemma trickle_base_first:
  "trickle_up E i0 (Pos 1 0 0) [] None depth 0 =
     ((if 1 \<le> depth then [(pth 1 0 0, i0)] else [], None),
      [(Pos 0 0 0, [((0, 0), i0)])])"
  by (subst trickle_up.simps) (simp add: Let_def parent_def max_def)

lemma trickle_base_second:
  "trickle_up E i1 (Pos 1 1 0) [(Pos 0 0 0, [((0, 0), i0)])] None depth 0 =
     ((if 1 \<le> depth then [(pth 1 1 0, i1)] else [], None),
      [(Pos 0 0 0, [((0, 0), i0), ((1, 0), i1)])])"
  by (subst trickle_up.simps) (simp add: Let_def parent_def max_def)

lemma trickle_base_third:
  "trickle_up E i2 (Pos 1 1 1) [(Pos 0 0 0, [((0, 0), i0), ((1, 0), i1)])] None depth 0 =
     ((if 1 \<le> depth then [(pth 1 1 1, i2)] else [], None),
      [(Pos 0 0 0, [((0, 0), i0), ((1, 0), i1), ((1, 1), i2)])])"
  by (subst trickle_up.simps) (simp add: Let_def parent_def max_def)

lemma trickle_base_fourth:
  assumes "List.map_filter id [i0, i1, i3, i2] = present # others"
    and "np_shape E present \<noteq> []"
    and "np_hstack E (case i0 of None \<Rightarrow> np_zeros E (np_shape E present) | Some a \<Rightarrow> a)
                     (case i1 of None \<Rightarrow> np_zeros E (np_shape E present) | Some a \<Rightarrow> a)
           = Inr upper"
    and "np_hstack E (case i3 of None \<Rightarrow> np_zeros E (np_shape E present) | Some a \<Rightarrow> a)
                     (case i2 of None \<Rightarrow> np_zeros E (np_shape E present) | Some a \<Rightarrow> a)
           = Inr lower"
    and "np_vstack E upper lower = Inr mosaic"
    and "default_merge E mosaic = Inr root_image"
    and "0 \<le> depth"
  shows "trickle_up E i3 (Pos 1 0 1)
           [(Pos 0 0 0, [((0, 0), i0), ((1, 0), i1), ((1, 1), i2)])] None depth 0 =
     ((if 1 \<le> depth then [(pth 1 0 1, i3), (''0/0/0_0.png'', Some root_image)]
       else [(''0/0/0_0.png'', Some root_image)], None), [])"
proof -
  let ?P = "[(Pos 0 0 0, [((0::int, 0::int), i0), ((1, 0), i1), ((1, 1), i2)])]"
  let ?C = "[((0::int, 0::int), i0), ((1, 0), i1), ((1, 1), i2), ((0, 1), i3)]"
  have d: "AList.delete (Pos 0 0 0) (AList.update (Pos 0 0 0) ?C ?P) = []" by simp
  have "trickle_up E i3 (Pos 1 0 1) ?P None depth 0 =
      (case trickle_up E (Some root_image) (Pos 0 0 0)
              (AList.delete (Pos 0 0 0) (AList.update (Pos 0 0 0) ?C ?P)) None depth 0 of
         ((items, r), ps) \<Rightarrow>
           (((if pos_n (Pos 1 0 1) \<le> depth
              then [(pth (pos_n (Pos 1 0 1)) (pos_x (Pos 1 0 1)) (pos_y (Pos 1 0 1)), i3)]
              else []) @ items, r), ps))"
  proof (rule trickle_up_full [THEN conjunct2, THEN conjunct2, rule_format])
    show "(\<Sum>(k, v)\<leftarrow>?P. int (length v)) \<le> 4 * max depth 1" by (simp add: max_def)
    show "pos_n (Pos 1 0 1) \<noteq> 0" by simp
    show "None \<noteq> None \<or> pos_n (Pos 1 0 1) \<le> 1" by simp
    show "parent (Pos 1 0 1) = (Pos 0 0 0, 0, 1)" by (simp add: parent_def)
    show "?C = AList.update (0, 1) i3 (case map_of ?P (Pos 0 0 0) of None \<Rightarrow> [] | Some c \<Rightarrow> c)"
      by simp
    show "4 \<le> length ?C" by simp
    show "map_of ?C (0, 0) = Some i0" "map_of ?C (1, 0) = Some i1"
      "map_of ?C (0, 1) = Some i3" "map_of ?C (1, 1) = Some i2" by simp_all
    show "(if pos_n (Pos 1 0 1) \<le> depth
              then [(pth (pos_n (Pos 1 0 1)) (pos_x (Pos 1 0 1)) (pos_y (Pos 1 0 1)), i3)]
              else []) = (if pos_n (Pos 1 0 1) \<le> depth
              then [(pth (pos_n (Pos 1 0 1)) (pos_x (Pos 1 0 1)) (pos_y (Pos 1 0 1)), i3)]
              else [])" by (rule refl)
    show "List.map_filter id [i0, i1, i3, i2] = present # others \<and>
         np_shape E present \<noteq> [] \<and>
         np_hstack E (case i0 of None \<Rightarrow> np_zeros E (np_shape E present) | Some a \<Rightarrow> a)
                     (case i1 of None \<Rightarrow> np_zeros E (np_shape E present) | Some a \<Rightarrow> a)
           = Inr upper \<and>
         np_hstack E (case i3 of None \<Rightarrow> np_zeros E (np_shape E present) | Some a \<Rightarrow> a)
                     (case i2 of None \<Rightarrow> np_zeros E (np_shape E present) | Some a \<Rightarrow> a)
           = Inr lower \<and>
         np_vstack E upper lower = Inr mosaic \<and>
         (case None of None \<Rightarrow> default_merge E | Some f \<Rightarrow> f) mosaic = Inr root_image"
      using assms by simp
  qed
  then show ?thesis
    unfolding d trickle_root using assms(7) by simp
qed

lemma loop_single:
  "iter_tiles_loop E s depth m False rd tp [t] parents =
     (case trickle_up E (tile_image E s rd t) (tile_pos t) parents m depth tp of
        ((items, r), ps) \<Rightarrow> ((filter (\<lambda>(p, img). img \<noteq> None) items, r), ps))"
  by (simp add: Let_def split: prod.splits option.splits)

lemma todo_positions:
  assumes "todo E = [b0, b1, b2, b3]"
  shows "tile_pos b0 = Pos 1 0 0" "tile_pos b1 = Pos 1 1 0"
    "tile_pos b2 = Pos 1 1 1" "tile_pos b3 = Pos 1 0 1"
  using todo_pos [of E] unfolding assms by simp_all

text \<open>
  C10. With \<^verbatim>\<open>merge=False\<close>, \<^verbatim>\<open>base_level_only=False\<close>, the default filter and the
  default \<^verbatim>\<open>top=0\<close>, at any depth \<open>\<ge> 0\<close>: the images of the four depth-1 tiles
  are accumulated and the last pair yielded is the root tile \<open>0/0/0_0.png\<close>, whose
  image is \<^verbatim>\<open>_default_merge\<close> of the mosaic of these four images (top left (1,0,0),
  top right (1,1,0), bottom left (1,0,1), bottom right (1,1,1), absent ones replaced by
  zeros), where the stacking and the merge return. The run ends normally.
\<close>

theorem merge_disabled_still_merges_base_level:
  assumes depth: "0 \<le> depth"
    and tiles: "todo E = [t00, t10, t11, t01]"
    and imgs: "ul = tile_image E s rd t00" "ur = tile_image E s rd t10"
              "br = tile_image E s rd t11" "bl = tile_image E s rd t01"
    and present: "List.map_filter id [ul, ur, bl, br] = present # others"
    and shape: "np_shape E present \<noteq> []"
    and upper: "np_hstack E (case ul of None \<Rightarrow> np_zeros E (np_shape E present) | Some a \<Rightarrow> a)
                     (case ur of None \<Rightarrow> np_zeros E (np_shape E present) | Some a \<Rightarrow> a)
           = Inr upper"
    and lower: "np_hstack E (case bl of None \<Rightarrow> np_zeros E (np_shape E present) | Some a \<Rightarrow> a)
                     (case br of None \<Rightarrow> np_zeros E (np_shape E present) | Some a \<Rightarrow> a)
           = Inr lower"
    and mosaic: "np_vstack E upper lower = Inr mosaic"
    and root: "default_merge E mosaic = Inr root_image"
  shows "\<exists>ys. iter_tiles E s depth MergeFalse False None rd 0 =
                (ys @ [(''0/0/0_0.png'', Some root_image)], None)"
proof -
  let ?L = "iter_tiles_loop E s depth None False rd 0"
  let ?P1 = "[(Pos 0 0 0, [((0::int, 0::int), ul)])]"
  let ?P2 = "[(Pos 0 0 0, [((0::int, 0::int), ul), ((1, 0), ur)])]"
  let ?P3 = "[(Pos 0 0 0, [((0::int, 0::int), ul), ((1, 0), ur), ((1, 1), br)])]"
  have D: "1 \<le> max depth 1" by simp
  obtain s0 s1 s2 s3 where
    ic: "iter_corners E (max depth 1) False None =
           (s0 @ [t00] @ s1 @ [t10] @ s2 @ [t11] @ s3 @ [t01], None)"
    and deep: "list_all (\<lambda>t. 2 \<le> pos_n (tile_pos t)) s0"
      "list_all (\<lambda>t. 2 \<le> pos_n (tile_pos t)) s1"
      "list_all (\<lambda>t. 2 \<le> pos_n (tile_pos t)) s2"
      "list_all (\<lambda>t. 2 \<le> pos_n (tile_pos t)) s3"
    using iter_corners_all [OF D tiles] by blast
  note p = todo_positions [OF tiles]
  have b0: "(\<Sum>(k, v)\<leftarrow>([]::(Pos \<times> ((int \<times> int) \<times> 'c option) list) list). int (length v))
      \<le> 4 * max depth 1" by simp
  have b1: "(\<Sum>(k, v)\<leftarrow>?P1. int (length v)) \<le> 4 * max depth 1" by (simp add: max_def)
  have b2: "(\<Sum>(k, v)\<leftarrow>?P2. int (length v)) \<le> 4 * max depth 1" by (simp add: max_def)
  have b3: "(\<Sum>(k, v)\<leftarrow>?P3. int (length v)) \<le> 4 * max depth 1" by (simp add: max_def)
  obtain y0 where y0: "?L s0 [] = ((y0, None), [])"
    using loop_deep [OF b0 deep(1), of E s rd] by blast
  obtain y1 where y1: "?L s1 ?P1 = ((y1, None), ?P1)"
    using loop_deep [OF b1 deep(2), of E s rd] by blast
  obtain y2 where y2: "?L s2 ?P2 = ((y2, None), ?P2)"
    using loop_deep [OF b2 deep(3), of E s rd] by blast
  obtain y3 where y3: "?L s3 ?P3 = ((y3, None), ?P3)"
    using loop_deep [OF b3 deep(4), of E s rd] by blast
  obtain f0 where f0: "?L [t00] [] = ((f0, None), ?P1)"
    unfolding loop_single p imgs(1) [symmetric] trickle_base_first by simp
  obtain f1 where f1: "?L [t10] ?P1 = ((f1, None), ?P2)"
    unfolding loop_single p imgs(2) [symmetric] trickle_base_second by simp
  obtain f2 where f2: "?L [t11] ?P2 = ((f2, None), ?P3)"
    unfolding loop_single p imgs(3) [symmetric] trickle_base_third by simp
  have fourth: "trickle_up E bl (Pos 1 0 1) ?P3 None depth 0 =
     ((if 1 \<le> depth then [(pth 1 0 1, bl), (''0/0/0_0.png'', Some root_image)]
       else [(''0/0/0_0.png'', Some root_image)], None), [])"
    using present shape upper lower mosaic root depth by (rule trickle_base_fourth)
  define f3 where "f3 = filter (\<lambda>(p, img). img \<noteq> None)
                          (if 1 \<le> depth then [(pth 1 0 1, bl)] else [])"
  have f3: "?L [t01] ?P3 = ((f3 @ [(''0/0/0_0.png'', Some root_image)], None), [])"
    unfolding loop_single p imgs(4) [symmetric] fourth f3_def by simp
  have "?L (s0 @ [t00] @ s1 @ [t10] @ s2 @ [t11] @ s3 @ [t01]) [] =
      ((y0 @ f0 @ y1 @ f1 @ y2 @ f2 @ y3 @ f3 @ [(''0/0/0_0.png'', Some root_image)], None), [])"
    by (simp only: loop_append y0 f0 y1 f1 y2 f2 y3 f3 prod.case option.case)
  then have "iter_tiles E s depth MergeFalse False None rd 0 =
      ((y0 @ f0 @ y1 @ f1 @ y2 @ f2 @ y3 @ f3) @ [(''0/0/0_0.png'', Some root_image)], None)"
    unfolding iter_tiles_def Let_def
    by (simp add: iter_corners_unfold(2) iter_corners_unfold(1) [symmetric] ic)
  then show ?thesis by blast
qed

theorem merge_disabled_still_merges_base_level_witness:
  "iter_tiles plane_env (SamplerFunc (\<lambda>l b. Some [[hd l, hd b]])) 1 MergeFalse False None None 0 =
     ([(''1/0/0_0.png'', Some [[0, - 90]]), (''1/0/0_1.png'', Some [[90, 0]]),
       (''1/1/1_1.png'', Some [[0, 90]]), (''1/1/1_0.png'', Some [[180, 0]]),
       (''0/0/0_0.png'', Some [[45 / 2, 45]])], None)
   \<and> default_merge plane_env [[0, - 90, 90, 0], [180, 0, 0, 90]] = Inr [[45 / 2, 45]]"
proof -
  let ?s = "SamplerFunc (\<lambda>l b. Some [[hd l, hd (b :: rat list)]])"
  let ?t00 = "Tile (Pos 1 0 0) ((0, - 90), (90, 0), (0, 90), (180, 0)) True :: (rat \<times> rat) Tile"
  let ?t10 = "Tile (Pos 1 1 0) ((90, 0), (0, - 90), (0, 0), (0, 90)) False :: (rat \<times> rat) Tile"
  let ?t11 = "Tile (Pos 1 1 1) ((0, 90), (0, 0), (0, - 90), (270, 0)) True :: (rat \<times> rat) Tile"
  let ?t01 = "Tile (Pos 1 0 1) ((180, 0), (0, 90), (270, 0), (0, - 90)) False :: (rat \<times> rat) Tile"
  have "\<exists>ys. iter_tiles plane_env ?s 1 MergeFalse False None None 0 =
                (ys @ [(''0/0/0_0.png'', Some [[45 / 2, 45]])], None)"
  proof (rule merge_disabled_still_merges_base_level
      [where ?t00.0 = ?t00 and ?t10.0 = ?t10 and ?t11.0 = ?t11 and ?t01.0 = ?t01
        and ul = "Some [[0, - 90]]" and ur = "Some [[90, 0]]"
        and br = "Some [[0, 90]]" and bl = "Some [[180, 0]]"
        and present = "[[0, - 90]]" and others = "[[[90, 0]], [[180, 0]], [[0, 90]]]"
        and upper = "[[0, - 90, 90, 0]]" and lower = "[[180, 0, 0, 90]]"
        and mosaic = "[[0, - 90, 90, 0], [180, 0, 0, 90]]"])
    show "(0::int) \<le> 1" by simp
    show "todo plane_env = [?t00, ?t10, ?t11, ?t01]" by code_simp
    show "Some [[0, - 90]] = tile_image plane_env ?s None ?t00" by code_simp
    show "Some [[90, 0]] = tile_image plane_env ?s None ?t10" by code_simp
    show "Some [[0, 90]] = tile_image plane_env ?s None ?t11" by code_simp
    show "Some [[180, 0]] = tile_image plane_env ?s None ?t01" by code_simp
    show "List.map_filter id [Some [[0, - 90]], Some [[90, 0]], Some [[180, 0]], Some [[0, 90::rat]]]
        = [[0, - 90]] # [[[90, 0]], [[180, 0]], [[0, 90]]]" by code_simp
    show "np_shape plane_env [[0, - 90]] \<noteq> []" by code_simp
    show "np_hstack plane_env
        (case Some [[0, - 90]] of None \<Rightarrow> np_zeros plane_env (np_shape plane_env [[0, - 90]]) | Some a \<Rightarrow> a)
        (case Some [[90, 0]] of None \<Rightarrow> np_zeros plane_env (np_shape plane_env [[0, - 90]]) | Some a \<Rightarrow> a)
        = Inr [[0, - 90, 90, 0]]" by code_simp
    show "np_hstack plane_env
        (case Some [[180, 0]] of None \<Rightarrow> np_zeros plane_env (np_shape plane_env [[0, - 90]]) | Some a \<Rightarrow> a)
        (case Some [[0, 90]] of None \<Rightarrow> np_zeros plane_env (np_shape plane_env [[0, - 90]]) | Some a \<Rightarrow> a)
        = Inr [[180, 0, 0, 90]]" by code_simp
    show "np_vstack plane_env [[0, - 90, 90, 0]] [[180, 0, 0, 90]]
        = Inr [[0, - 90, 90, 0], [180, 0, 0, 90]]" by code_simp
    show "default_merge plane_env [[0, - 90, 90, 0], [180, 0, 0, 90]] = Inr [[45 / 2, 45]]"
      by code_simp
  qed
  moreover have "iter_tiles plane_env ?s 1 MergeFalse False None None 0 =
     ([(''1/0/0_0.png'', Some [[0, - 90]]), (''1/0/0_1.png'', Some [[90, 0]]),
       (''1/1/1_1.png'', Some [[0, 90]]), (''1/1/1_0.png'', Some [[180, 0]]),
       (''0/0/0_0.png'', Some [[45 / 2, 45]])], None)"
    by code_simp
  moreover have "default_merge plane_env [[0, - 90, 90, 0], [180, 0, 0, 90]] = Inr [[45 / 2, 45]]"
    by code_simp
  ultimately show ?thesis by blast
qed

end
